theory Spec2Isabelle
  imports Main "HOL-Library.Word"
begin

section \<open>Data model of ThreadPool.cc\<close>

text \<open>
  A \<open>std::thread::id\<close> is an opaque identity; a natural number stands for it.
  The static registry \<open>ThreadPool::f_thread_ids\<close> is a \<open>std::map\<close> from thread
  identities to \<open>uintmax_t\<close> indices. It is an association list whose keys are kept
  distinct by every operation below, so \<open>size()\<close> is the length of the list.
\<close>

type_synonym ThreadId = nat

type_synonym thread_id_map_t = "(ThreadId \<times> 64 word) list"

text \<open>
  Modelled from the spec: the numeric values of the constants of \<open>thread_pool::state\<close>.
  They are declared in PTL/ThreadPool.hh, which is not among the sources; the spec orders
  them \<open>NONINIT < STARTED < PARTIAL < STOPPED\<close> with \<open>NONINIT\<close> the numeric zero.
\<close>

definition NONINIT :: int where "NONINIT = 0"
definition STARTED :: int where "STARTED = 1"
definition PARTIAL :: int where "PARTIAL = 2"
definition STOPPED :: int where "STOPPED = 3"

text \<open>The failures of the code: the \<open>std::runtime_error\<close> thrown when the two vectors
  differ in size, and \<open>pop_back\<close> on an empty \<open>m_is_joined\<close>, which C++ leaves undefined.\<close>

datatype error = SizeMismatch nat nat | PopBackEmpty

text \<open>What was sent to the condition variable \<open>m_task_cond\<close>, in order.\<close>

datatype notify = notify_one | notify_all

text \<open>A \<open>Thread\<close> handle: the identity of the thread and the index argument that
  \<open>start_thread\<close> was given for it.\<close>

record Thread =
  get_id :: ThreadId
  start_arg :: "64 word"

text \<open>
  The members of \<open>ThreadPool\<close> that the functions below read or write, in the build
  without \<open>PTL_USE_TBB\<close>. The static \<open>f_thread_ids\<close> is carried in the same record.
  \<open>m_task_cond\<close> records the notifications issued so far.
\<close>

record ThreadPool =
  f_thread_ids :: thread_id_map_t
  m_alive_flag :: bool
  m_pool_size :: nat
  m_pool_state :: int
  m_thread_awake :: int
  m_main_threads :: "ThreadId list"
  m_is_joined :: "bool list"
  m_unique_threads :: "Thread list"
  m_is_stopped :: "bool list"
  m_stop_threads :: "ThreadId list"
  m_task_cond :: "notify list"

section \<open>The thread registry\<close>

text \<open>\<open>find\<close>, \<open>operator[]\<close> as an assignment, \<open>operator[]\<close> as a read (which
  inserts a value-initialised entry for an absent key) and \<open>erase\<close> of \<open>std::map\<close>.\<close>

definition map_find :: "thread_id_map_t \<Rightarrow> ThreadId \<Rightarrow> 64 word option" where
  "map_find ids k = map_of ids k"

fun map_assign :: "thread_id_map_t \<Rightarrow> ThreadId \<Rightarrow> 64 word \<Rightarrow> thread_id_map_t" where
  "map_assign [] k v = [(k, v)]"
| "map_assign ((k', v') # ids) k v =
     (if k' = k then (k, v) # ids else (k', v') # map_assign ids k v)"

definition map_index :: "thread_id_map_t \<Rightarrow> ThreadId \<Rightarrow> 64 word \<times> thread_id_map_t" where
  "map_index ids k =
     (case map_find ids k of
        Some v \<Rightarrow> (v, ids)
      | None \<Rightarrow> (0, map_assign ids k 0))"

definition map_erase :: "thread_id_map_t \<Rightarrow> ThreadId \<Rightarrow> thread_id_map_t" where
  "map_erase ids k = filter (\<lambda>p. fst p \<noteq> k) ids"

definition map_size :: "thread_id_map_t \<Rightarrow> 64 word" where
  "map_size ids = of_nat (length ids)"

text \<open>\<open>ThreadPool::GetThisThreadID\<close>, called by the thread \<open>tid\<close> (\<open>_tid\<close> in the source).\<close>

definition GetThisThreadID :: "ThreadId \<Rightarrow> thread_id_map_t \<Rightarrow> 64 word \<times> thread_id_map_t" where
  "GetThisThreadID tid ids =
     (let ids1 = (if map_find ids tid = None
                  then (let idx = map_size ids in map_assign ids tid idx)
                  else ids)
      in map_index ids1 tid)"

text \<open>The locked block of \<open>ThreadPool::start_thread\<close>, run by the new thread \<open>tid\<close>:
  \<open>idx\<close> is an \<open>intmax_t\<close>, read here in two's complement.\<close>

definition start_thread_ids :: "ThreadId \<Rightarrow> 64 word \<Rightarrow> thread_id_map_t \<Rightarrow> thread_id_map_t" where
  "start_thread_ids tid idx ids =
     (let idx1 = (if sint idx < 0 then map_size ids else idx)
      in map_assign ids tid idx1)"

section \<open>Operations of the master thread\<close>

text \<open>
  The functions of the master are state transformers on the members. Locking
  \<open>m_task_lock\<close> and joining a thread change no member; the model takes them to return.
\<close>

text \<open>The loop of \<open>stop_thread\<close> over \<open>m_stop_threads\<close>: the front identity is popped,
  its first occurrence erased from \<open>m_main_threads\<close>, and \<open>m_is_joined\<close> loses its last
  entry.\<close>

fun drain_stop_threads ::
  "ThreadId list \<Rightarrow> ThreadId list \<Rightarrow> bool list \<Rightarrow> error + (ThreadId list \<times> bool list)" where
  "drain_stop_threads [] main joined = Inr (main, joined)"
| "drain_stop_threads (tid # rest) main joined =
     (if joined = [] then Inl PopBackEmpty
      else drain_stop_threads rest (remove1 tid main) (butlast joined))"

text \<open>\<open>stop_thread\<close> holds the mutex twice. Lines 444 to 447: the token and the
  notification.\<close>

definition stop_thread_notify :: "ThreadPool \<Rightarrow> ThreadPool" where
  "stop_thread_notify tp =
     tp\<lparr>m_is_stopped := m_is_stopped tp @ [True],
        m_task_cond := m_task_cond tp @ [notify_one]\<rparr>"

text \<open>Lines 451 to 472: the loop over \<open>m_stop_threads\<close> and the new size.\<close>

definition stop_thread_drain :: "ThreadPool \<Rightarrow> error + (nat \<times> ThreadPool)" where
  "stop_thread_drain tp =
     (case drain_stop_threads (m_stop_threads tp) (m_main_threads tp) (m_is_joined tp) of
        Inl e \<Rightarrow> Inl e
      | Inr (main, joined) \<Rightarrow>
          Inr (length main,
               tp\<lparr>m_stop_threads := [], m_main_threads := main,
                  m_is_joined := joined, m_pool_size := length main\<rparr>))"

text \<open>\<open>stop_thread\<close> with what the other threads do to the pool between line 447,
  where the mutex is released, and line 451, where it is taken again, given as the
  function \<open>between\<close>.\<close>

definition stop_thread_between ::
  "(ThreadPool \<Rightarrow> ThreadPool) \<Rightarrow> ThreadPool \<Rightarrow> error + (nat \<times> ThreadPool)" where
  "stop_thread_between between tp =
     (if \<not> m_alive_flag tp \<or> m_pool_size tp = 0 then Inr (0, tp)
      else stop_thread_drain (between (stop_thread_notify tp)))"

text \<open>\<open>stop_thread\<close> when no other thread runs in between.\<close>

definition stop_thread :: "ThreadPool \<Rightarrow> error + (nat \<times> ThreadPool)" where
  "stop_thread tp = stop_thread_between (\<lambda>tp1. tp1) tp"

text \<open>\<open>stop_thread\<close> called \<open>k\<close> times in a row by the master.\<close>

fun stop_thread_times :: "nat \<Rightarrow> ThreadPool \<Rightarrow> error + ThreadPool" where
  "stop_thread_times 0 tp = Inr tp"
| "stop_thread_times (Suc k) tp =
     (case stop_thread tp of
        Inl e \<Rightarrow> Inl e
      | Inr (n, tp1) \<Rightarrow> stop_thread_times k tp1)"

text \<open>The loop \<open>while(stop_thread() > proposed_size);\<close> of \<open>initialize_threadpool\<close>.
  It need not end: \<open>None\<close> is the loop that runs forever.\<close>

partial_function (option) stop_thread_while :: "nat \<Rightarrow> ThreadPool \<Rightarrow> (error + ThreadPool) option" where
  "stop_thread_while proposed_size tp =
     (case stop_thread tp of
        Inl e \<Rightarrow> Some (Inl e)
      | Inr (n, tp1) \<Rightarrow>
          if n > proposed_size then stop_thread_while proposed_size tp1 else Some (Inr tp1))"

text \<open>The spawn loop of \<open>initialize_threadpool\<close> over \<open>i = m_pool_size, \<dots>, proposed_size - 1\<close>.
  \<open>spawn i\<close> is the identity of the thread created in iteration \<open>i\<close>, or \<open>None\<close> when
  the creation throws and the iteration is skipped.\<close>

fun spawn_loop ::
  "(nat \<Rightarrow> ThreadId option) \<Rightarrow> 64 word \<Rightarrow> nat list \<Rightarrow> ThreadPool \<Rightarrow> ThreadPool" where
  "spawn_loop spawn this_tid [] tp = tp"
| "spawn_loop spawn this_tid (i # rest) tp =
     (case spawn i of
        None \<Rightarrow> spawn_loop spawn this_tid rest tp
      | Some tid \<Rightarrow>
          spawn_loop spawn this_tid rest
            (tp\<lparr>m_pool_size := m_pool_size tp + 1,
                m_main_threads := m_main_threads tp @ [tid],
                m_is_joined := m_is_joined tp @ [False],
                m_unique_threads := m_unique_threads tp
                   @ [\<lparr>get_id = tid, start_arg = this_tid + of_nat i + 1\<rparr>]\<rparr>))"

text \<open>The start of \<open>initialize_threadpool\<close> for a proposed size of at least 1:
  the store of \<open>STARTED\<close> when the pool is not alive, and the alive flag.\<close>

definition initialize_begin :: "ThreadPool \<Rightarrow> ThreadPool" where
  "initialize_begin tp =
     (let tp1 = (if \<not> m_alive_flag tp then tp\<lparr>m_pool_state := STARTED\<rparr> else tp)
      in tp1\<lparr>m_alive_flag := True\<rparr>)"

text \<open>\<open>GetThisThreadID\<close> and the spawn loop: the pool as it is when the final check
  takes the lock.\<close>

definition spawn_threads ::
  "ThreadId \<Rightarrow> (nat \<Rightarrow> ThreadId option) \<Rightarrow> nat \<Rightarrow> ThreadPool \<Rightarrow> ThreadPool" where
  "spawn_threads caller spawn proposed_size tp =
     (let (this_tid, ids) = GetThisThreadID caller (f_thread_ids tp);
          tp1 = tp\<lparr>f_thread_ids := ids\<rparr>
      in spawn_loop spawn this_tid [m_pool_size tp1 ..< proposed_size] tp1)"

definition initialize_threadpool ::
  "ThreadId \<Rightarrow> (nat \<Rightarrow> ThreadId option) \<Rightarrow> nat \<Rightarrow> ThreadPool
     \<Rightarrow> (error + (nat \<times> ThreadPool)) option" where
  "initialize_threadpool caller spawn proposed_size tp =
     (if proposed_size < 1 then Some (Inr (0, tp))
      else
        let tp2 = initialize_begin tp
        in if m_pool_state tp2 = STARTED \<and> m_pool_size tp2 > proposed_size
           then (case stop_thread_while proposed_size tp2 of
                   None \<Rightarrow> None
                 | Some (Inl e) \<Rightarrow> Some (Inl e)
                 | Some (Inr tp3) \<Rightarrow> Some (Inr (m_pool_size tp3, tp3)))
           else if m_pool_state tp2 = STARTED \<and> m_pool_size tp2 = proposed_size
           then Some (Inr (m_pool_size tp2, tp2))
           else
             let tp3 = spawn_threads caller spawn proposed_size tp2
             in if length (m_is_joined tp3) \<noteq> length (m_main_threads tp3)
                then Some (Inl (SizeMismatch (length (m_is_joined tp3))
                                  (length (m_main_threads tp3))))
                else Some (Inr (length (m_main_threads tp3), tp3)))"

text \<open>The constructor, run by the thread \<open>caller\<close> with the registry \<open>ids\<close>: the member
  initialisers, \<open>GetThisThreadID\<close>, and \<open>initialize_threadpool(pool_size)\<close>.\<close>

definition ThreadPool_ctor ::
  "ThreadId \<Rightarrow> (nat \<Rightarrow> ThreadId option) \<Rightarrow> nat \<Rightarrow> thread_id_map_t
     \<Rightarrow> (error + ThreadPool) option" where
  "ThreadPool_ctor caller spawn pool_size ids =
     (let (master_id, ids1) = GetThisThreadID caller ids;
          tp = \<lparr>f_thread_ids = ids1, m_alive_flag = False, m_pool_size = 0,
                m_pool_state = NONINIT, m_thread_awake = 0, m_main_threads = [],
                m_is_joined = [], m_unique_threads = [], m_is_stopped = [],
                m_stop_threads = [], m_task_cond = []\<rparr>
      in case initialize_threadpool caller spawn pool_size tp of
           None \<Rightarrow> None
         | Some (Inl e) \<Rightarrow> Some (Inl e)
         | Some (Inr (n, tp1)) \<Rightarrow> Some (Inr tp1))"

text \<open>The start of \<open>destroy_threadpool\<close>, called by the thread \<open>caller\<close>, lines
  361 to 374: \<open>GetThisThreadID\<close>, the store of \<open>STOPPED\<close>, and the notification of
  all waiters under the mutex.\<close>

definition destroy_begin :: "ThreadId \<Rightarrow> ThreadPool \<Rightarrow> ThreadPool" where
  "destroy_begin caller tp =
     (let (nid, ids) = GetThisThreadID caller (f_thread_ids tp)
      in tp\<lparr>f_thread_ids := ids, m_pool_state := STOPPED,
            m_task_cond := m_task_cond tp @ [notify_all]\<rparr>)"

definition destroy_threadpool :: "ThreadId \<Rightarrow> ThreadPool \<Rightarrow> error + (nat \<times> ThreadPool)" where
  "destroy_threadpool caller tp =
     (let tp1 = destroy_begin caller tp
      in if \<not> m_alive_flag tp1 then Inr (0, tp1)
         else if length (m_is_joined tp1) \<noteq> length (m_main_threads tp1)
         then Inl (SizeMismatch (length (m_is_joined tp1)) (length (m_main_threads tp1)))
         else
           Inr (0, tp1\<lparr>f_thread_ids := foldl map_erase (f_thread_ids tp1) (m_main_threads tp1),
                       m_task_cond := m_task_cond tp1 @ [notify_all],
                       m_main_threads := [], m_is_joined := [], m_unique_threads := [],
                       m_alive_flag := False\<rparr>))"

section \<open>The worker thread: \<open>execute_thread\<close>\<close>

text \<open>
  A task is known to the pool by two things only: it can be invoked, and \<open>group()\<close>
  is null or not. \<open>group t\<close> holds when \<open>group()\<close> is not null.
\<close>

record VTask =
  task_id :: nat
  group :: bool

text \<open>
  The queue is external (\<open>VUserTaskQueue\<close>). Its three operations used by the pool are
  parameters, over any type \<open>'q\<close> of queue states; \<open>empty()\<close> is \<open>queue_empty\<close> here.
\<close>

record 'q VUserTaskQueue =
  GetTask :: "'q \<Rightarrow> VTask option \<times> 'q"
  queue_empty :: "'q \<Rightarrow> bool"
  true_size :: "'q \<Rightarrow> nat"

text \<open>The events a worker records in its trace, in the order it does them:
  a call of \<open>GetTask\<close> with its result, an invocation \<open>(*_task)()\<close>, a
  \<open>delete _task\<close>, and a call of \<open>leave_pool\<close> with its result.\<close>

datatype event = Dequeue "VTask option" | Invoke VTask | Delete VTask | LeavePool bool

text \<open>The places of \<open>execute_thread\<close> where the worker reads or writes something
  shared; the numbers are the lines of ThreadPool.cc.\<close>

datatype pc =
    Start            \<comment> \<open>487: \<open>++(*m_thread_awake)\<close>, \<open>m_init_func()\<close>\<close>
  | DummyRun         \<comment> \<open>502: the dummy run's \<open>GetTask()\<close>\<close>
  | DummyTask VTask  \<comment> \<open>506: the dummy run's task\<close>
  | WhileEmpty       \<comment> \<open>555: \<open>while(_task_queue->empty())\<close>\<close>
  | Leave1           \<comment> \<open>562: \<open>if(leave_pool()) return\<close>\<close>
  | TrueSize         \<comment> \<open>565: \<open>if(_task_queue->true_size() == 0)\<close>\<close>
  | Sleep            \<comment> \<open>567: awake count down, lock\<close>
  | Wait             \<comment> \<open>577: \<open>m_task_cond.wait(_task_lock, _wake)\<close>\<close>
  | Leave2           \<comment> \<open>580: \<open>if(leave_pool()) return\<close>\<close>
  | Awake            \<comment> \<open>584: unlock, awake count up\<close>
  | Release          \<comment> \<open>596: unlock if owned\<close>
  | Leave3           \<comment> \<open>601: \<open>if(leave_pool()) return\<close>\<close>
  | WhileNotEmpty    \<comment> \<open>610: \<open>while(!_task_queue->empty())\<close>\<close>
  | Get              \<comment> \<open>612: \<open>GetTask()\<close>\<close>
  | RunTask VTask    \<comment> \<open>615: the task\<close>
  | Returned         \<comment> \<open>\<open>execute_thread\<close> has returned\<close>

text \<open>The worker's own data: where it is, whether its \<open>_task_lock\<close> owns the mutex,
  \<open>data->within_task\<close>, and what it has done so far.\<close>

record worker =
  pc :: pc
  owns_lock :: bool
  within_task :: bool
  trace :: "event list"

text \<open>
  The lambda \<open>leave_pool\<close>, run by the worker \<open>tid\<close> whose lock ownership is
  \<open>owns\<close>: the result, the ownership afterwards, and the pool. Acquiring the mutex is taken
  to succeed. \<open>m_pool_state\<close> is loaded once.
\<close>

definition leave_pool :: "ThreadId \<Rightarrow> bool \<Rightarrow> ThreadPool \<Rightarrow> bool \<times> bool \<times> ThreadPool" where
  "leave_pool tid owns tp =
     (let pool_state = m_pool_state tp
      in if pool_state > 0
         then (if pool_state = STOPPED then (True, owns, tp)
               else if pool_state = PARTIAL
               then (if m_is_stopped tp \<noteq> [] \<and> last (m_is_stopped tp)
                     then (True, True,
                           tp\<lparr>m_stop_threads := m_stop_threads tp @ [tid],
                              m_is_stopped := butlast (m_is_stopped tp)\<rparr>)
                     else (False, False, tp))
               else (False, owns, tp))
         else (False, owns, tp))"

text \<open>The lambda \<open>_wake\<close>, the predicate of the condition wait.\<close>

definition wake :: "'q VUserTaskQueue \<Rightarrow> ThreadPool \<Rightarrow> 'q \<Rightarrow> bool" where
  "wake Q tp q = (\<not> queue_empty Q q \<or> true_size Q q > 0 \<or> m_pool_state tp > 0)"

text \<open>Invoking a task and disposing of it: \<open>(*_task)(); if(!_task->group()) delete _task;\<close>.
  The invocation is taken to return.\<close>

definition run_task :: "VTask \<Rightarrow> event list" where
  "run_task t = Invoke t # (if \<not> group t then [Delete t] else [])"

text \<open>A call of \<open>leave_pool\<close> at one of its three sites: on \<open>True\<close> the worker returns
  (and the destructor of \<open>_task_lock\<close> releases the mutex), on \<open>False\<close> it goes on at
  \<open>next\<close>.\<close>

definition leave_or :: "pc \<Rightarrow> ThreadId \<Rightarrow> worker \<Rightarrow> ThreadPool \<Rightarrow> worker \<times> ThreadPool" where
  "leave_or next tid w tp =
     (let (b, owns, tp1) = leave_pool tid (owns_lock w) tp;
          w1 = w\<lparr>trace := trace w @ [LeavePool b]\<rparr>
      in if b then (w1\<lparr>pc := Returned, owns_lock := False\<rparr>, tp1)
         else (w1\<lparr>pc := next, owns_lock := owns\<rparr>, tp1))"

text \<open>
  One step of \<open>execute_thread\<close>, run by the worker \<open>tid\<close> on the pool and the queue as
  they are at that moment. The end of an iteration of \<open>while(true)\<close> destroys
  \<open>_task_lock\<close>, and the next iteration builds it deferred: the worker then owns no lock.
  The comparison \<open>m_thread_awake->load() < m_pool_size\<close> is unsigned, so a negative
  count compares as a large one.
\<close>

definition execute_thread_step ::
  "'q VUserTaskQueue \<Rightarrow> ThreadId \<Rightarrow> worker \<times> ThreadPool \<times> 'q \<Rightarrow> worker \<times> ThreadPool \<times> 'q" where
  "execute_thread_step Q tid c =
     (let (w, tp, q) = c in
      case pc w of
        Start \<Rightarrow> (w\<lparr>pc := DummyRun\<rparr>, tp\<lparr>m_thread_awake := m_thread_awake tp + 1\<rparr>, q)
      | DummyRun \<Rightarrow>
          (let (t, q1) = GetTask Q q;
               w1 = w\<lparr>trace := trace w @ [Dequeue t]\<rparr>
           in case t of
                Some task \<Rightarrow> (w1\<lparr>pc := DummyTask task, within_task := True\<rparr>, tp, q1)
              | None \<Rightarrow> (w1\<lparr>pc := WhileEmpty, within_task := False, owns_lock := False\<rparr>, tp, q1))
      | DummyTask task \<Rightarrow>
          (w\<lparr>pc := WhileEmpty, within_task := False, owns_lock := False,
             trace := trace w @ run_task task\<rparr>, tp, q)
      | WhileEmpty \<Rightarrow>
          (if queue_empty Q q then (w\<lparr>pc := Leave1\<rparr>, tp, q) else (w\<lparr>pc := Release\<rparr>, tp, q))
      | Leave1 \<Rightarrow> (let (w1, tp1) = leave_or TrueSize tid w tp in (w1, tp1, q))
      | TrueSize \<Rightarrow>
          (if true_size Q q = 0 then (w\<lparr>pc := Sleep\<rparr>, tp, q) else (w\<lparr>pc := Release\<rparr>, tp, q))
      | Sleep \<Rightarrow>
          (w\<lparr>pc := Wait, owns_lock := True\<rparr>,
           (if m_thread_awake tp > 0 then tp\<lparr>m_thread_awake := m_thread_awake tp - 1\<rparr> else tp),
           q)
      | Wait \<Rightarrow> (if wake Q tp q then (w\<lparr>pc := Leave2\<rparr>, tp, q) else (w, tp, q))
      | Leave2 \<Rightarrow> (let (w1, tp1) = leave_or Awake tid w tp in (w1, tp1, q))
      | Awake \<Rightarrow>
          (w\<lparr>pc := WhileEmpty, owns_lock := False\<rparr>,
           (if 0 \<le> m_thread_awake tp \<and> m_thread_awake tp < int (m_pool_size tp)
            then tp\<lparr>m_thread_awake := m_thread_awake tp + 1\<rparr> else tp),
           q)
      | Release \<Rightarrow> (w\<lparr>pc := Leave3, owns_lock := False\<rparr>, tp, q)
      | Leave3 \<Rightarrow>
          (let (w1, tp1) = leave_or WhileNotEmpty tid w tp
           in ((if pc w1 = Returned then w1 else w1\<lparr>within_task := True\<rparr>), tp1, q))
      | WhileNotEmpty \<Rightarrow>
          (if \<not> queue_empty Q q then (w\<lparr>pc := Get\<rparr>, tp, q)
           else (w\<lparr>pc := WhileEmpty, within_task := False, owns_lock := False\<rparr>, tp, q))
      | Get \<Rightarrow>
          (let (t, q1) = GetTask Q q;
               w1 = w\<lparr>trace := trace w @ [Dequeue t]\<rparr>
           in case t of
                Some task \<Rightarrow> (w1\<lparr>pc := RunTask task\<rparr>, tp, q1)
              | None \<Rightarrow> (w1\<lparr>pc := WhileNotEmpty\<rparr>, tp, q1))
      | RunTask task \<Rightarrow> (w\<lparr>pc := WhileNotEmpty, trace := trace w @ run_task task\<rparr>, tp, q)
      | Returned \<Rightarrow> (w, tp, q))"

text \<open>
  A run of \<open>execute_thread\<close>: before each step of the worker, the other threads (the
  master, the other workers, the tasks' submitters) change the pool and the queue in any
  way, given as a function. The worker's own data is out of their reach.
\<close>

fun execute_thread ::
  "'q VUserTaskQueue \<Rightarrow> ThreadId \<Rightarrow> (ThreadPool \<times> 'q \<Rightarrow> ThreadPool \<times> 'q) list
     \<Rightarrow> worker \<times> ThreadPool \<times> 'q \<Rightarrow> worker \<times> ThreadPool \<times> 'q" where
  "execute_thread Q tid [] c = c"
| "execute_thread Q tid (env # envs) c =
     execute_thread Q tid envs (execute_thread_step Q tid (fst c, env (snd c)))"

text \<open>
  What steps of workers do to the pool, as the master sees it: each entry is a worker,
  its own data and the queue as it finds it, and the worker takes one step of
  \<open>execute_thread\<close>. Any data and any queue are allowed, so every real run of any
  number of workers is among these.
\<close>

fun worker_steps ::
  "'q VUserTaskQueue \<Rightarrow> (ThreadId \<times> worker \<times> 'q) list \<Rightarrow> ThreadPool \<Rightarrow> ThreadPool" where
  "worker_steps Q [] tp = tp"
| "worker_steps Q ((tid, w, q) # rest) tp =
     worker_steps Q rest (fst (snd (execute_thread_step Q tid (w, tp, q))))"

text \<open>Calls of \<open>stop_thread\<close> by the master, one after the other, with workers running:
  for each call, the steps of workers before it and the steps between its two critical
  sections.\<close>

fun stop_thread_calls ::
  "'q VUserTaskQueue
     \<Rightarrow> ((ThreadId \<times> worker \<times> 'q) list \<times> (ThreadId \<times> worker \<times> 'q) list) list
     \<Rightarrow> ThreadPool \<Rightarrow> error + ThreadPool" where
  "stop_thread_calls Q [] tp = Inr tp"
| "stop_thread_calls Q ((before, between) # calls) tp =
     (case stop_thread_between (worker_steps Q between) (worker_steps Q before tp) of
        Inl e \<Rightarrow> Inl e
      | Inr (n, tp1) \<Rightarrow> stop_thread_calls Q calls tp1)"

text \<open>\<open>ThreadPool::start_thread\<close>, run by the new thread \<open>tid\<close>: the registration,
  a fresh \<open>ThreadData\<close>, and the worker at the start of \<open>execute_thread\<close>.\<close>

definition start_thread :: "ThreadId \<Rightarrow> 64 word \<Rightarrow> ThreadPool \<Rightarrow> worker \<times> ThreadPool" where
  "start_thread tid idx tp =
     (\<lparr>pc = Start, owns_lock = False, within_task = False, trace = []\<rparr>,
      tp\<lparr>f_thread_ids := start_thread_ids tid idx (f_thread_ids tp)\<rparr>)"

text \<open>Properties of a trace. \<open>leave_is_last\<close>: a call of \<open>leave_pool\<close>, if there is one,
  returned \<open>True\<close> and is the last thing the worker did. \<open>disposal_ok\<close>: every
  invocation of a task without a group is followed at once by its \<open>delete\<close>, and there
  is no other \<open>delete\<close>.\<close>

fun leave_is_last :: "event list \<Rightarrow> bool" where
  "leave_is_last [] = True"
| "leave_is_last (LeavePool b # es) = (b \<and> es = [])"
| "leave_is_last (e # es) = leave_is_last es"

fun is_leave :: "event \<Rightarrow> bool" where
  "is_leave (LeavePool b) = True"
| "is_leave e = False"

fun disposal_ok :: "event list \<Rightarrow> bool" where
  "disposal_ok [] = True"
| "disposal_ok (Invoke t # es) =
     (if group t then disposal_ok es
      else (case es of Delete t' # es' \<Rightarrow> t' = t \<and> disposal_ok es' | _ \<Rightarrow> False))"
| "disposal_ok (Delete t # es) = False"
| "disposal_ok (e # es) = disposal_ok es"

section \<open>Pools used as examples\<close>

text \<open>A pool is settled when no acknowledgement is pending and \<open>m_pool_size\<close> is the
  length of \<open>m_main_threads\<close>.\<close>

definition settled :: "ThreadPool \<Rightarrow> bool" where
  "settled tp \<longleftrightarrow> m_stop_threads tp = [] \<and> m_pool_size tp = length (m_main_threads tp)"

text \<open>\<open>pool_of_two\<close> is the pool the constructor builds for two workers with the
  identities 1 and 2, from the empty registry, on thread 0; \<open>pool_of_none\<close> the one it
  builds for the size 0. No function of ThreadPool.cc stores \<open>PARTIAL\<close>;
  \<open>pool_in_partial\<close> is \<open>pool_of_two\<close> with that state stored from elsewhere,
  \<open>pool_partial\<close> the same pool with one stop token posted and notified, and
  \<open>pool_acked\<close> that pool once worker 2 has taken the token. \<open>pool_destroyed\<close> is what \<open>destroy_threadpool\<close> leaves of \<open>pool_of_two\<close>.
  \<open>pool_bad\<close> has lost an entry of \<open>m_is_joined\<close>.\<close>

definition pool_of_two :: ThreadPool where
  "pool_of_two = \<lparr>f_thread_ids = [(0, 0)], m_alive_flag = True, m_pool_size = 2,
          m_pool_state = STARTED, m_thread_awake = 0, m_main_threads = [1, 2],
          m_is_joined = [False, False],
          m_unique_threads = [\<lparr>get_id = 1, start_arg = 1\<rparr>, \<lparr>get_id = 2, start_arg = 2\<rparr>],
          m_is_stopped = [], m_stop_threads = [], m_task_cond = []\<rparr>"

definition pool_of_none :: ThreadPool where
  "pool_of_none = \<lparr>f_thread_ids = [(0, 0)], m_alive_flag = False, m_pool_size = 0,
          m_pool_state = NONINIT, m_thread_awake = 0, m_main_threads = [],
          m_is_joined = [], m_unique_threads = [],
          m_is_stopped = [], m_stop_threads = [], m_task_cond = []\<rparr>"


definition pool_partial :: ThreadPool where
  "pool_partial = pool_of_two\<lparr>m_pool_state := PARTIAL, m_is_stopped := [True],
                              m_task_cond := [notify_one]\<rparr>"

definition pool_acked :: ThreadPool where
  "pool_acked = pool_of_two\<lparr>m_pool_state := PARTIAL, m_stop_threads := [2],
                            m_task_cond := [notify_one]\<rparr>"


definition pool_bad :: ThreadPool where
  "pool_bad = pool_of_two\<lparr>m_is_joined := [False]\<rparr>"

section \<open>A queue, tasks and workers used as examples\<close>

text \<open>\<open>fifo_queue\<close> is a queue of one bin, served in order. \<open>pool_stopped\<close> is
  \<open>pool_of_two\<close> once \<open>destroy_threadpool\<close> has stored \<open>STOPPED\<close> and notified all
  waiters. \<open>worker_at p\<close> is a worker at the place \<open>p\<close> that has done nothing yet;
  \<open>task_a\<close> has no group, \<open>task_b\<close> has one.\<close>

definition fifo_queue :: "VTask list VUserTaskQueue" where
  "fifo_queue =
     \<lparr>GetTask = (\<lambda>q. case q of [] \<Rightarrow> (None, []) | t # ts \<Rightarrow> (Some t, ts)),
      queue_empty = (\<lambda>q. q = []),
      true_size = length\<rparr>"

definition pool_stopped :: ThreadPool where
  "pool_stopped = pool_of_two\<lparr>m_pool_state := STOPPED, m_task_cond := [notify_all]\<rparr>"

definition worker_at :: "pc \<Rightarrow> worker" where
  "worker_at p = \<lparr>pc = p, owns_lock = False, within_task = False, trace = []\<rparr>"


definition task_a :: VTask where "task_a = \<lparr>task_id = 1, group = False\<rparr>"
definition task_b :: VTask where "task_b = \<lparr>task_id = 2, group = True\<rparr>"

section \<open>The registry assigns the current size\<close>

lemma map_find_assign_same: "map_find (map_assign ids k v) k = Some v"
  by (induction ids) (auto simp: map_find_def)

lemma map_assign_absent: "map_find ids k = None \<Longrightarrow> map_assign ids k v = ids @ [(k, v)]"
  by (induction ids) (auto simp: map_find_def split: if_splits)

text \<open>The operations keep the keys of the registry distinct.\<close>

lemma map_assign_keys: "fst ` set (map_assign ids k v) = insert k (fst ` set ids)"
proof (induction ids)
  case Nil
  show ?case by simp
next
  case (Cons p ids)
  obtain k' v' where p: "p = (k', v')" by (cases p)
  show ?case
  proof (cases "k' = k")
    case True
    with p show ?thesis by auto
  next
    case False
    with p Cons.IH show ?thesis by auto
  qed
qed

lemma map_assign_distinct:
  "distinct (map fst ids) \<Longrightarrow> distinct (map fst (map_assign ids k v))"
proof (induction ids)
  case Nil
  show ?case by simp
next
  case (Cons p ids)
  obtain k' v' where p: "p = (k', v')" by (cases p)
  show ?case
  proof (cases "k' = k")
    case True
    with p Cons.prems show ?thesis by simp
  next
    case False
    from Cons.prems p have "k' \<notin> fst ` set ids" and d: "distinct (map fst ids)" by auto
    with False have "k' \<notin> fst ` set (map_assign ids k v)"
      by (simp add: map_assign_keys)
    with False p Cons.IH [OF d] show ?thesis by simp
  qed
qed

lemma map_erase_distinct:
  "distinct (map fst ids) \<Longrightarrow> distinct (map fst (map_erase ids k))"
  by (simp add: map_erase_def distinct_map_filter)

lemma map_index_present: "map_find ids k = Some v \<Longrightarrow> map_index ids k = (v, ids)"
  by (simp add: map_index_def)

lemma GetThisThreadID_absent:
  "map_find ids t = None \<Longrightarrow>
   GetThisThreadID t ids = (map_size ids, ids @ [(t, map_size ids)])"
  by (simp add: GetThisThreadID_def Let_def map_index_present map_find_assign_same
      map_assign_absent [symmetric])

text \<open>
  C9. A thread that queries the registry while its identity is absent gets the current
  size of the map as its index and is inserted with it; on the empty registry (the first
  query ever) the index is 0; and a worker entering through \<open>start_thread\<close> with a
  negative index argument is stored with the current size of the map.
\<close>

theorem C9_registry_assigns_current_size:
  "(map_find ids t = None \<longrightarrow>
      fst (GetThisThreadID t ids) = map_size ids \<and>
      snd (GetThisThreadID t ids) = ids @ [(t, map_size ids)] \<and>
      map_find (snd (GetThisThreadID t ids)) t = Some (map_size ids)) \<and>
   GetThisThreadID t [] = (0, [(t, 0)]) \<and>
   (sint idx < 0 \<longrightarrow>
      map_find (start_thread_ids t idx ids) t = Some (map_size ids)) \<and>
   (sint idx < 0 \<longrightarrow>
      map_find (f_thread_ids (snd (start_thread t idx tp))) t = Some (map_size (f_thread_ids tp)))"
proof (intro conjI impI)
  assume a: "map_find ids t = None"
  show "fst (GetThisThreadID t ids) = map_size ids"
    by (simp add: GetThisThreadID_absent [OF a])
  show "snd (GetThisThreadID t ids) = ids @ [(t, map_size ids)]"
    by (simp add: GetThisThreadID_absent [OF a])
  show "map_find (snd (GetThisThreadID t ids)) t = Some (map_size ids)"
    using map_find_assign_same [of ids t "map_size ids"]
    by (simp add: GetThisThreadID_absent [OF a] map_assign_absent [OF a])
next
  show "GetThisThreadID t [] = (0, [(t, 0)])"
    by (simp add: GetThisThreadID_def map_find_def map_index_def map_size_def)
next
  assume "sint idx < 0"
  then show "map_find (start_thread_ids t idx ids) t = Some (map_size ids)"
    by (simp add: start_thread_ids_def map_find_assign_same)
next
  assume "sint idx < 0"
  then show "map_find (f_thread_ids (snd (start_thread t idx tp))) t
               = Some (map_size (f_thread_ids tp))"
    by (simp add: start_thread_def start_thread_ids_def map_find_assign_same)
qed

theorem C9_registry_assigns_current_size_witness:
  "map_find [(7, 0), (9, 1)] (4::nat) = None \<and>
   GetThisThreadID 4 [(7, 0), (9, 1)] = (2, [(7, 0), (9, 1), (4, 2)]) \<and>
   sint (- 1 :: 64 word) < 0 \<and>
   map_find (start_thread_ids 4 (- 1) [(7, 0), (9, 1)]) 4 = Some 2 \<and>
   map_find (f_thread_ids (snd (start_thread 4 (- 1) pool_of_two))) 4 = Some 1"
proof -
  have a: "map_find [(7, 0), (9, 1)] (4::nat) = None"
    by (simp add: map_find_def)
  have b: "sint (- 1 :: 64 word) < 0"
    by simp
  have c: "map_size (f_thread_ids pool_of_two) = 1"
    by (simp add: map_size_def pool_of_two_def)
  from C9_registry_assigns_current_size
    [where ids = "[(7, 0), (9, 1)]" and t = 4 and idx = "- 1" and tp = pool_of_two] a b
  have "fst (GetThisThreadID 4 [(7, 0), (9, 1)]) = map_size [(7, 0), (9, 1)]"
    and "snd (GetThisThreadID 4 [(7, 0), (9, 1)]) = [(7, 0), (9, 1)] @ [(4, map_size [(7, 0), (9, 1)])]"
    and "map_find (start_thread_ids 4 (- 1) [(7, 0), (9, 1)]) 4 = Some (map_size [(7, 0), (9, 1)])"
    and "map_find (f_thread_ids (snd (start_thread 4 (- 1) pool_of_two))) 4
           = Some (map_size (f_thread_ids pool_of_two))"
    by blast+
  then show ?thesis
    using a b by (simp add: map_size_def prod_eq_iff c [unfolded map_size_def])
qed

section \<open>Lemmas on the operations of the master\<close>

lemma upt_0_2: "[0..<2] = [0, Suc 0]"
  by (simp add: upt_rec numeral_2_eq_2)

lemma ctor_two: "ThreadPool_ctor 0 (\<lambda>i. Some (Suc i)) 2 [] = Some (Inr pool_of_two)"
  by (simp add: ThreadPool_ctor_def GetThisThreadID_def map_find_def map_index_def map_size_def
      initialize_threadpool_def initialize_begin_def spawn_threads_def Let_def pool_of_two_def
      NONINIT_def STARTED_def upt_0_2)

lemma ctor_none: "ThreadPool_ctor 0 spawn 0 [] = Some (Inr pool_of_none)"
  by (simp add: ThreadPool_ctor_def GetThisThreadID_def map_find_def map_index_def map_size_def
      initialize_threadpool_def pool_of_none_def)

lemma stop_thread_unfold:
  "stop_thread tp =
     (if \<not> m_alive_flag tp \<or> m_pool_size tp = 0 then Inr (0, tp)
      else
        let tp1 = tp\<lparr>m_is_stopped := m_is_stopped tp @ [True],
                     m_task_cond := m_task_cond tp @ [notify_one]\<rparr>
        in case drain_stop_threads (m_stop_threads tp1) (m_main_threads tp1) (m_is_joined tp1) of
             Inl e \<Rightarrow> Inl e
           | Inr (main, joined) \<Rightarrow>
               Inr (length main,
                    tp1\<lparr>m_stop_threads := [], m_main_threads := main,
                        m_is_joined := joined, m_pool_size := length main\<rparr>))"
  by (simp add: stop_thread_def stop_thread_between_def stop_thread_drain_def
      stop_thread_notify_def Let_def)

lemma drain_stop_threads_err:
  "drain_stop_threads acks main joined = Inl e \<Longrightarrow> e = PopBackEmpty"
  by (induction acks arbitrary: main joined) (auto split: if_splits)

lemma stop_thread_err: "stop_thread tp = Inl e \<Longrightarrow> e = PopBackEmpty"
proof (cases "\<not> m_alive_flag tp \<or> m_pool_size tp = 0")
  case True
  then show "stop_thread tp = Inl e \<Longrightarrow> e = PopBackEmpty"
    by (simp add: stop_thread_unfold)
next
  case False
  assume a: "stop_thread tp = Inl e"
  show "e = PopBackEmpty"
  proof (cases "drain_stop_threads (m_stop_threads tp) (m_main_threads tp) (m_is_joined tp)")
    case (Inl e')
    with a False have "e' = e" by (simp add: stop_thread_unfold Let_def)
    with drain_stop_threads_err [OF Inl] show ?thesis by simp
  next
    case (Inr p)
    with a False show ?thesis by (simp add: stop_thread_unfold Let_def split_beta)
  qed
qed

lemma stop_thread_while_err_all:
  assumes "stop_thread_while n tp = Some r"
  shows "\<forall>e. r = Inl e \<longrightarrow> e = PopBackEmpty"
proof (rule stop_thread_while.raw_induct
    [where P = "\<lambda>n tp r. \<forall>e. r = Inl e \<longrightarrow> e = PopBackEmpty", OF _ assms], goal_cases)
  case (1 f n tp r)
  show ?case
  proof (cases "stop_thread tp")
    case (Inl e')
    with 1(2) stop_thread_err [OF Inl] show ?thesis by auto
  next
    case (Inr p)
    obtain m tp1 where p: "p = (m, tp1)" by (cases p)
    show ?thesis
    proof (cases "m > n")
      case True
      with 1(2) Inr p have "f n tp1 = Some r" by simp
      from 1(1) [OF this] show ?thesis .
    next
      case False
      with 1(2) Inr p show ?thesis by auto
    qed
  qed
qed

lemma stop_thread_while_err:
  "stop_thread_while n tp = Some r \<Longrightarrow> r = Inl e \<Longrightarrow> e = PopBackEmpty"
  using stop_thread_while_err_all by blast

lemma GetThisThreadID_present:
  "map_find ids t \<noteq> None \<Longrightarrow> snd (GetThisThreadID t ids) = ids"
  by (auto simp: GetThisThreadID_def map_index_def)

lemma spawn_loop_sizes:
  "length (m_is_joined (spawn_loop sp t js tp)) + length (m_main_threads tp) =
   length (m_main_threads (spawn_loop sp t js tp)) + length (m_is_joined tp)"
proof (induction js arbitrary: tp)
  case Nil
  show ?case by simp
next
  case (Cons j js)
  show ?case
  proof (cases "sp j")
    case None
    with Cons.IH [of tp] show ?thesis by simp
  next
    case (Some x)
    let ?tp = "tp\<lparr>m_pool_size := m_pool_size tp + 1,
                m_main_threads := m_main_threads tp @ [x],
                m_is_joined := m_is_joined tp @ [False],
                m_unique_threads := m_unique_threads tp
                   @ [\<lparr>get_id = x, start_arg = t + of_nat j + 1\<rparr>]\<rparr>"
    from Cons.IH [of ?tp] Some show ?thesis by simp
  qed
qed

lemma spawn_threads_sizes:
  "length (m_is_joined (spawn_threads c sp n tp)) + length (m_main_threads tp) =
   length (m_main_threads (spawn_threads c sp n tp)) + length (m_is_joined tp)"
  using spawn_loop_sizes [of sp "fst (GetThisThreadID c (f_thread_ids tp))"
      "[m_pool_size tp ..< n]" "tp\<lparr>f_thread_ids := snd (GetThisThreadID c (f_thread_ids tp))\<rparr>"]
  by (simp add: spawn_threads_def Let_def split_beta)

lemma initialize_begin_sizes:
  "m_is_joined (initialize_begin tp) = m_is_joined tp"
  "m_main_threads (initialize_begin tp) = m_main_threads tp"
  "m_pool_size (initialize_begin tp) = m_pool_size tp"
  by (simp_all add: initialize_begin_def)

lemma drain_stop_threads_eq:
  "drain_stop_threads acks main joined =
     (if length acks \<le> length joined
      then Inr (fold remove1 acks main, take (length joined - length acks) joined)
      else Inl PopBackEmpty)"
proof (induction acks arbitrary: main joined)
  case Nil
  show ?case by simp
next
  case (Cons a acks)
  show ?case
  proof (cases "joined = []")
    case True
    then show ?thesis by simp
  next
    case False
    then have "length acks \<le> length (butlast joined) \<longleftrightarrow> length (a # acks) \<le> length joined"
      by (cases joined rule: rev_cases) auto
    with False show ?thesis
      by (simp add: Cons.IH take_butlast)
  qed
qed

lemma stop_thread_guard:
  "\<not> m_alive_flag tp \<or> m_pool_size tp = 0 \<Longrightarrow> stop_thread tp = Inr (0, tp)"
  by (simp add: stop_thread_unfold)

lemma stop_thread_run:
  assumes "m_alive_flag tp" and "m_pool_size tp \<noteq> 0"
    and "length (m_stop_threads tp) \<le> length (m_is_joined tp)"
  shows "stop_thread tp =
     Inr (length (fold remove1 (m_stop_threads tp) (m_main_threads tp)),
          tp\<lparr>m_is_stopped := m_is_stopped tp @ [True],
             m_task_cond := m_task_cond tp @ [notify_one],
             m_stop_threads := [],
             m_main_threads := fold remove1 (m_stop_threads tp) (m_main_threads tp),
             m_is_joined := take (length (m_is_joined tp) - length (m_stop_threads tp)) (m_is_joined tp),
             m_pool_size := length (fold remove1 (m_stop_threads tp) (m_main_threads tp))\<rparr>)"
  using assms by (simp add: stop_thread_unfold Let_def drain_stop_threads_eq)

lemma stop_thread_pool_state:
  "stop_thread tp = Inr (n, tp') \<Longrightarrow> m_pool_state tp' = m_pool_state tp"
  by (auto simp: stop_thread_unfold Let_def drain_stop_threads_eq split: if_splits)

lemma stop_thread_settled:
  assumes "settled tp"
  shows "\<exists>n tp'. stop_thread tp = Inr (n, tp') \<and> settled tp' \<and> m_pool_size tp' = m_pool_size tp"
  using assms by (auto simp: stop_thread_unfold settled_def Let_def)

lemma stop_thread_times_settled:
  "settled tp \<Longrightarrow> \<exists>tp'. stop_thread_times k tp = Inr tp' \<and> settled tp' \<and> m_pool_size tp' = m_pool_size tp"
proof (induction k arbitrary: tp)
  case 0
  then show ?case by simp
next
  case (Suc k)
  from stop_thread_settled [OF Suc.prems] obtain n tp1
    where s: "stop_thread tp = Inr (n, tp1)" "settled tp1" "m_pool_size tp1 = m_pool_size tp"
    by blast
  from Suc.IH [OF s(2)] s show ?case by auto
qed

lemma leave_pool_partial: "leave_pool 2 False pool_partial = (True, True, pool_acked)"
  by (simp add: leave_pool_def pool_partial_def pool_acked_def pool_of_two_def
      PARTIAL_def STOPPED_def)

section \<open>What \<open>stop_thread\<close> and \<open>destroy_threadpool\<close> do to the acknowledgements\<close>








section \<open>The fatal error of \<open>initialize_threadpool\<close> and \<open>destroy_threadpool\<close>\<close>

text \<open>
  C7. \<open>initialize_threadpool\<close> throws the size-mismatch error exactly when it reaches
  its final check (the proposed size is at least 1, and the pool is not in the state
  \<open>STARTED\<close> with at least the proposed size) and \<open>m_is_joined\<close> and
  \<open>m_main_threads\<close> differ in length there; they differ there exactly when they
  differed on entry. \<open>destroy_threadpool\<close> fails exactly when the pool is alive and the
  two lengths differ, and then with the same error.
\<close>

theorem C7_fatal_iff_sizes_differ:
  "(initialize_threadpool c sp n tp = Some (Inl (SizeMismatch a b)) \<longleftrightarrow>
      1 \<le> n \<and>
      \<not> (m_pool_state (initialize_begin tp) = STARTED \<and> n \<le> m_pool_size tp) \<and>
      a = length (m_is_joined (spawn_threads c sp n (initialize_begin tp))) \<and>
      b = length (m_main_threads (spawn_threads c sp n (initialize_begin tp))) \<and>
      a \<noteq> b) \<and>
   (length (m_is_joined (spawn_threads c sp n (initialize_begin tp))) \<noteq>
      length (m_main_threads (spawn_threads c sp n (initialize_begin tp))) \<longleftrightarrow>
    length (m_is_joined tp) \<noteq> length (m_main_threads tp)) \<and>
   (destroy_threadpool c tp = Inl e \<longleftrightarrow>
      m_alive_flag tp \<and> length (m_is_joined tp) \<noteq> length (m_main_threads tp) \<and>
      e = SizeMismatch (length (m_is_joined tp)) (length (m_main_threads tp)))"
proof (intro conjI)
  show "initialize_threadpool c sp n tp = Some (Inl (SizeMismatch a b)) \<longleftrightarrow>
      1 \<le> n \<and>
      \<not> (m_pool_state (initialize_begin tp) = STARTED \<and> n \<le> m_pool_size tp) \<and>
      a = length (m_is_joined (spawn_threads c sp n (initialize_begin tp))) \<and>
      b = length (m_main_threads (spawn_threads c sp n (initialize_begin tp))) \<and>
      a \<noteq> b"
  proof (cases "n < 1")
    case True
    then show ?thesis by (simp add: initialize_threadpool_def)
  next
    case n: False
    show ?thesis
    proof (cases "m_pool_state (initialize_begin tp) = STARTED \<and> n < m_pool_size tp")
      case True
      have "stop_thread_while n (initialize_begin tp) \<noteq> Some (Inl (SizeMismatch a b))"
        using stop_thread_while_err [of n "initialize_begin tp" _ "SizeMismatch a b"] by auto
      with True n show ?thesis
        by (auto simp: initialize_threadpool_def Let_def initialize_begin_sizes
            split: option.splits sum.splits)
    next
      case False
      with n show ?thesis
        by (auto simp: initialize_threadpool_def Let_def initialize_begin_sizes)
    qed
  qed
next
  show "length (m_is_joined (spawn_threads c sp n (initialize_begin tp))) \<noteq>
      length (m_main_threads (spawn_threads c sp n (initialize_begin tp))) \<longleftrightarrow>
    length (m_is_joined tp) \<noteq> length (m_main_threads tp)"
    using spawn_threads_sizes [of c sp n "initialize_begin tp"]
    by (simp add: initialize_begin_sizes) arith
next
  show "destroy_threadpool c tp = Inl e \<longleftrightarrow>
      m_alive_flag tp \<and> length (m_is_joined tp) \<noteq> length (m_main_threads tp) \<and>
      e = SizeMismatch (length (m_is_joined tp)) (length (m_main_threads tp))"
    by (auto simp: destroy_threadpool_def destroy_begin_def Let_def split_beta)
qed

theorem C7_fatal_iff_sizes_differ_witness:
  "initialize_threadpool 0 (\<lambda>i. Some (Suc i)) 3 pool_bad = Some (Inl (SizeMismatch 2 3)) \<and>
   length (m_is_joined pool_bad) \<noteq> length (m_main_threads pool_bad) \<and>
   destroy_threadpool 0 pool_bad = Inl (SizeMismatch 1 2) \<and>
   initialize_threadpool 0 (\<lambda>i. Some (Suc i)) 3 pool_of_two \<noteq> Some (Inl (SizeMismatch 3 3)) \<and>
   destroy_threadpool 0 pool_of_two \<noteq> Inl (SizeMismatch 2 2)"
proof -
  have b: "initialize_begin pool_bad = pool_bad" "initialize_begin pool_of_two = pool_of_two"
    by (simp_all add: initialize_begin_def pool_bad_def pool_of_two_def)
  have u: "[2..<3] = [2]"
    by (simp add: upt_rec numeral_3_eq_3 numeral_2_eq_2)
  have s: "length (m_is_joined (spawn_threads 0 (\<lambda>i. Some (Suc i)) 3 pool_bad)) = 2"
    "length (m_main_threads (spawn_threads 0 (\<lambda>i. Some (Suc i)) 3 pool_bad)) = 3"
    "length (m_is_joined (spawn_threads 0 (\<lambda>i. Some (Suc i)) 3 pool_of_two)) = 3"
    "length (m_main_threads (spawn_threads 0 (\<lambda>i. Some (Suc i)) 3 pool_of_two)) = 3"
    by (simp_all add: spawn_threads_def GetThisThreadID_def map_find_def map_index_def Let_def
        pool_bad_def pool_of_two_def u)
  have p: "m_pool_state pool_bad = STARTED" "m_pool_size pool_bad = 2" "m_alive_flag pool_bad"
    "length (m_is_joined pool_bad) = 1" "length (m_main_threads pool_bad) = 2"
    "m_pool_state pool_of_two = STARTED" "m_pool_size pool_of_two = 2" "m_alive_flag pool_of_two"
    "length (m_is_joined pool_of_two) = 2" "length (m_main_threads pool_of_two) = 2"
    by (simp_all add: pool_bad_def pool_of_two_def)
  from C7_fatal_iff_sizes_differ [of 0 "\<lambda>i. Some (Suc i)" 3 pool_bad 2 3 "SizeMismatch 1 2"]
    C7_fatal_iff_sizes_differ [of 0 "\<lambda>i. Some (Suc i)" 3 pool_of_two 3 3 "SizeMismatch 2 2"]
  show ?thesis
    by (simp add: b s p)
qed

section \<open>\<open>destroy_threadpool\<close> on a pool that is not alive\<close>

text \<open>
  C8 (as amended). \<open>destroy_threadpool\<close> on a pool that is not alive returns 0, having
  stored \<open>STOPPED\<close> in \<open>m_pool_state\<close>, notified all waiters once and registered the
  calling thread if it was absent from the registry; nothing else has changed, and the
  registry is unchanged when the caller was registered.
\<close>

theorem C8_destroy_not_alive:
  "\<not> m_alive_flag tp \<Longrightarrow>
   destroy_threadpool c tp =
     Inr (0, tp\<lparr>f_thread_ids := snd (GetThisThreadID c (f_thread_ids tp)),
                m_pool_state := STOPPED,
                m_task_cond := m_task_cond tp @ [notify_all]\<rparr>) \<and>
   (map_find (f_thread_ids tp) c \<noteq> None \<longrightarrow>
      snd (GetThisThreadID c (f_thread_ids tp)) = f_thread_ids tp)"
  by (simp add: destroy_threadpool_def destroy_begin_def Let_def split_beta GetThisThreadID_present)

theorem C8_destroy_not_alive_witness:
  "\<not> m_alive_flag pool_of_none \<and>
   destroy_threadpool 0 pool_of_none =
     Inr (0, pool_of_none\<lparr>m_pool_state := STOPPED, m_task_cond := [notify_all]\<rparr>)"
proof -
  have a: "\<not> m_alive_flag pool_of_none" by (simp add: pool_of_none_def)
  have b: "map_find (f_thread_ids pool_of_none) 0 \<noteq> None"
    by (simp add: pool_of_none_def map_find_def)
  from C8_destroy_not_alive [OF a, of 0] a b show ?thesis
    by (simp add: pool_of_none_def)
qed

text \<open>The pool the constructor builds for the size 0 is not alive and in the state
  \<open>NONINIT\<close>; \<open>destroy_threadpool\<close> leaves it in the state \<open>STOPPED\<close>.\<close>

theorem C8_destroy_not_alive_counterexample:
  "ThreadPool_ctor 0 (\<lambda>i. Some (Suc i)) 0 [] = Some (Inr pool_of_none) \<and>
   \<not> m_alive_flag pool_of_none \<and>
   m_pool_state pool_of_none = NONINIT \<and>
   destroy_threadpool 0 pool_of_none =
     Inr (0, pool_of_none\<lparr>m_pool_state := STOPPED, m_task_cond := [notify_all]\<rparr>) \<and>
   destroy_threadpool 0 pool_of_none \<noteq> Inr (0, pool_of_none)"
  by (simp add: ctor_none)
     (simp add: pool_of_none_def destroy_threadpool_def destroy_begin_def GetThisThreadID_def map_find_def
        map_index_def Let_def NONINIT_def STOPPED_def)

section \<open>Lemmas on the worker\<close>

lemma leave_pool_stopped:
  "m_pool_state tp = STOPPED \<Longrightarrow> leave_pool tid owns tp = (True, owns, tp)"
  by (simp add: leave_pool_def STOPPED_def)

lemma leave_pool_partial_token:
  "m_pool_state tp = PARTIAL \<Longrightarrow> m_is_stopped tp \<noteq> [] \<Longrightarrow> last (m_is_stopped tp) \<Longrightarrow>
   leave_pool tid owns tp =
     (True, True, tp\<lparr>m_stop_threads := m_stop_threads tp @ [tid],
                     m_is_stopped := butlast (m_is_stopped tp)\<rparr>)"
  by (simp add: leave_pool_def PARTIAL_def STOPPED_def)

lemma leave_pool_partial_no_token:
  "m_pool_state tp = PARTIAL \<Longrightarrow> \<not> (m_is_stopped tp \<noteq> [] \<and> last (m_is_stopped tp)) \<Longrightarrow>
   leave_pool tid owns tp = (False, False, tp)"
  by (auto simp: leave_pool_def PARTIAL_def STOPPED_def)

lemma leave_pool_other:
  "m_pool_state tp \<noteq> PARTIAL \<Longrightarrow> m_pool_state tp \<noteq> STOPPED \<Longrightarrow>
   leave_pool tid owns tp = (False, owns, tp)"
  by (simp add: leave_pool_def Let_def)

lemma leave_pool_cases:
  obtains (stopped) "m_pool_state tp = STOPPED" "leave_pool tid owns tp = (True, owns, tp)"
  | (token) "m_pool_state tp = PARTIAL" "m_is_stopped tp \<noteq> []" "last (m_is_stopped tp)"
      "leave_pool tid owns tp =
         (True, True, tp\<lparr>m_stop_threads := m_stop_threads tp @ [tid],
                         m_is_stopped := butlast (m_is_stopped tp)\<rparr>)"
  | (no_token) "m_pool_state tp = PARTIAL" "\<not> (m_is_stopped tp \<noteq> [] \<and> last (m_is_stopped tp))"
      "leave_pool tid owns tp = (False, False, tp)"
  | (other) "m_pool_state tp \<noteq> PARTIAL" "m_pool_state tp \<noteq> STOPPED"
      "leave_pool tid owns tp = (False, owns, tp)"
  using leave_pool_stopped [of tp tid owns] leave_pool_partial_token [of tp tid owns]
    leave_pool_partial_no_token [of tp tid owns] leave_pool_other [of tp tid owns]
  by blast

lemma leave_or_True:
  "leave_pool tid (owns_lock w) tp = (True, o', tp') \<Longrightarrow>
   leave_or nx tid w tp =
     (w\<lparr>trace := trace w @ [LeavePool True], pc := Returned, owns_lock := False\<rparr>, tp')"
  by (simp add: leave_or_def)

lemma leave_or_False:
  "leave_pool tid (owns_lock w) tp = (False, o', tp') \<Longrightarrow>
   leave_or nx tid w tp =
     (w\<lparr>trace := trace w @ [LeavePool False], pc := nx, owns_lock := o'\<rparr>, tp')"
  by (simp add: leave_or_def)

lemma step_Start:
  "pc w = Start \<Longrightarrow> execute_thread_step Q tid (w, tp, q) =
     (w\<lparr>pc := DummyRun\<rparr>, tp\<lparr>m_thread_awake := m_thread_awake tp + 1\<rparr>, q)"
  by (simp add: execute_thread_step_def)

lemma step_DummyRun:
  "pc w = DummyRun \<Longrightarrow> execute_thread_step Q tid (w, tp, q) =
     (case fst (GetTask Q q) of
        Some task \<Rightarrow> (w\<lparr>trace := trace w @ [Dequeue (Some task)], pc := DummyTask task,
                          within_task := True\<rparr>, tp, snd (GetTask Q q))
      | None \<Rightarrow> (w\<lparr>trace := trace w @ [Dequeue None], pc := WhileEmpty, within_task := False,
                     owns_lock := False\<rparr>, tp, snd (GetTask Q q)))"
  by (simp add: execute_thread_step_def split_beta Let_def split: option.splits)

lemma step_DummyTask:
  "pc w = DummyTask task \<Longrightarrow> execute_thread_step Q tid (w, tp, q) =
     (w\<lparr>pc := WhileEmpty, within_task := False, owns_lock := False,
        trace := trace w @ run_task task\<rparr>, tp, q)"
  by (simp add: execute_thread_step_def)

lemma step_WhileEmpty:
  "pc w = WhileEmpty \<Longrightarrow> execute_thread_step Q tid (w, tp, q) =
     (w\<lparr>pc := (if queue_empty Q q then Leave1 else Release)\<rparr>, tp, q)"
  by (simp add: execute_thread_step_def)

lemma step_Leave1:
  "pc w = Leave1 \<Longrightarrow> execute_thread_step Q tid (w, tp, q) =
     (fst (leave_or TrueSize tid w tp), snd (leave_or TrueSize tid w tp), q)"
  by (simp add: execute_thread_step_def split_beta)

lemma step_TrueSize:
  "pc w = TrueSize \<Longrightarrow> execute_thread_step Q tid (w, tp, q) =
     (w\<lparr>pc := (if true_size Q q = 0 then Sleep else Release)\<rparr>, tp, q)"
  by (simp add: execute_thread_step_def)

lemma step_Sleep:
  "pc w = Sleep \<Longrightarrow> execute_thread_step Q tid (w, tp, q) =
     (w\<lparr>pc := Wait, owns_lock := True\<rparr>,
      (if m_thread_awake tp > 0 then tp\<lparr>m_thread_awake := m_thread_awake tp - 1\<rparr> else tp), q)"
  by (simp add: execute_thread_step_def)

lemma step_Wait:
  "pc w = Wait \<Longrightarrow> execute_thread_step Q tid (w, tp, q) =
     (if wake Q tp q then (w\<lparr>pc := Leave2\<rparr>, tp, q) else (w, tp, q))"
  by (simp add: execute_thread_step_def)

lemma step_Leave2:
  "pc w = Leave2 \<Longrightarrow> execute_thread_step Q tid (w, tp, q) =
     (fst (leave_or Awake tid w tp), snd (leave_or Awake tid w tp), q)"
  by (simp add: execute_thread_step_def split_beta)

lemma step_Awake:
  "pc w = Awake \<Longrightarrow> execute_thread_step Q tid (w, tp, q) =
     (w\<lparr>pc := WhileEmpty, owns_lock := False\<rparr>,
      (if 0 \<le> m_thread_awake tp \<and> m_thread_awake tp < int (m_pool_size tp)
       then tp\<lparr>m_thread_awake := m_thread_awake tp + 1\<rparr> else tp), q)"
  by (simp add: execute_thread_step_def)

lemma step_Release:
  "pc w = Release \<Longrightarrow> execute_thread_step Q tid (w, tp, q) =
     (w\<lparr>pc := Leave3, owns_lock := False\<rparr>, tp, q)"
  by (simp add: execute_thread_step_def)

lemma step_Leave3:
  "pc w = Leave3 \<Longrightarrow> execute_thread_step Q tid (w, tp, q) =
     ((if pc (fst (leave_or WhileNotEmpty tid w tp)) = Returned
       then fst (leave_or WhileNotEmpty tid w tp)
       else (fst (leave_or WhileNotEmpty tid w tp))\<lparr>within_task := True\<rparr>),
      snd (leave_or WhileNotEmpty tid w tp), q)"
  by (simp add: execute_thread_step_def split_beta)

lemma step_WhileNotEmpty:
  "pc w = WhileNotEmpty \<Longrightarrow> execute_thread_step Q tid (w, tp, q) =
     (if \<not> queue_empty Q q then (w\<lparr>pc := Get\<rparr>, tp, q)
      else (w\<lparr>pc := WhileEmpty, within_task := False, owns_lock := False\<rparr>, tp, q))"
  by (simp add: execute_thread_step_def)

lemma step_Get:
  "pc w = Get \<Longrightarrow> execute_thread_step Q tid (w, tp, q) =
     (case fst (GetTask Q q) of
        Some task \<Rightarrow> (w\<lparr>trace := trace w @ [Dequeue (Some task)], pc := RunTask task\<rparr>, tp,
                      snd (GetTask Q q))
      | None \<Rightarrow> (w\<lparr>trace := trace w @ [Dequeue None], pc := WhileNotEmpty\<rparr>, tp,
                  snd (GetTask Q q)))"
  by (simp add: execute_thread_step_def split_beta Let_def split: option.splits)

lemma step_RunTask:
  "pc w = RunTask task \<Longrightarrow> execute_thread_step Q tid (w, tp, q) =
     (w\<lparr>pc := WhileNotEmpty, trace := trace w @ run_task task\<rparr>, tp, q)"
  by (simp add: execute_thread_step_def)

lemma step_Returned:
  "pc w = Returned \<Longrightarrow> execute_thread_step Q tid (w, tp, q) = (w, tp, q)"
  by (simp add: execute_thread_step_def)

lemmas step_at = step_Start step_DummyRun step_DummyTask step_WhileEmpty step_Leave1
  step_TrueSize step_Sleep step_Wait step_Leave2 step_Awake step_Release step_Leave3
  step_WhileNotEmpty step_Get step_RunTask step_Returned

lemma execute_thread_Returned:
  "pc w = Returned \<Longrightarrow> fst (execute_thread Q tid envs (w, sh)) = w"
proof (induction envs arbitrary: sh)
  case Nil
  show ?case by simp
next
  case (Cons env envs)
  obtain tp q where e: "env sh = (tp, q)" by (cases "env sh")
  from Cons show ?case by (simp add: e step_Returned)
qed

lemma leave_pool_pool_state:
  "m_pool_state (snd (snd (leave_pool tid owns tp))) = m_pool_state tp"
  by (cases rule: leave_pool_cases [of tp tid owns]) simp_all

lemma leave_or_result:
  "leave_or nx tid w tp =
     (w\<lparr>trace := trace w @ [LeavePool (fst (leave_pool tid (owns_lock w) tp))],
        pc := (if fst (leave_pool tid (owns_lock w) tp) then Returned else nx),
        owns_lock := (if fst (leave_pool tid (owns_lock w) tp) then False
                      else fst (snd (leave_pool tid (owns_lock w) tp)))\<rparr>,
      snd (snd (leave_pool tid (owns_lock w) tp)))"
  by (simp add: leave_or_def split_beta Let_def)

lemma step_pool_state:
  "m_pool_state (fst (snd (execute_thread_step Q tid (w, tp, q)))) = m_pool_state tp"
  by (cases "pc w") (simp_all add: step_at leave_or_result leave_pool_pool_state split: option.splits)

lemma step_trace:
  fixes Q tid w tp q
  defines "w' \<equiv> fst (execute_thread_step Q tid (w, tp, q))"
  shows "\<exists>evs. trace w' = trace w @ evs \<and>
           (evs = [] \<or> (\<exists>t. evs = [Dequeue t]) \<or> (\<exists>t. evs = run_task t) \<or>
            (\<exists>b. evs = [LeavePool b] \<and> pc w \<in> {Leave1, Leave2, Leave3} \<and>
                 b = fst (leave_pool tid (owns_lock w) tp) \<and>
                 (b \<longrightarrow> pc w' = Returned \<and> \<not> owns_lock w')))"
  unfolding w'_def
  by (cases "pc w") (auto simp: step_at leave_or_result split: option.splits)

lemma leave_is_last_no_leave:
  "\<forall>e \<in> set xs. \<not> is_leave e \<Longrightarrow> leave_is_last (xs @ ys) = leave_is_last ys"
  by (induction xs rule: leave_is_last.induct) auto

lemma run_task_no_leave: "\<forall>e \<in> set (run_task t). \<not> is_leave e"
  by (simp add: run_task_def)

lemma step_stopped:
  fixes Q tid w tp q
  defines "w' \<equiv> fst (execute_thread_step Q tid (w, tp, q))"
  assumes st: "m_pool_state tp = STOPPED"
  shows "(\<exists>evs. trace w' = trace w @ evs \<and> (\<forall>e \<in> set evs. \<not> is_leave e)) \<or>
         (trace w' = trace w @ [LeavePool True] \<and> pc w' = Returned \<and> \<not> owns_lock w')"
proof -
  from step_trace [of Q tid w tp q] obtain evs where
    t: "trace w' = trace w @ evs" and
    c: "evs = [] \<or> (\<exists>t. evs = [Dequeue t]) \<or> (\<exists>t. evs = run_task t) \<or>
            (\<exists>b. evs = [LeavePool b] \<and> pc w \<in> {Leave1, Leave2, Leave3} \<and>
                 b = fst (leave_pool tid (owns_lock w) tp) \<and>
                 (b \<longrightarrow> pc w' = Returned \<and> \<not> owns_lock w'))"
    unfolding w'_def by blast
  from c consider "\<forall>e \<in> set evs. \<not> is_leave e"
    | b where "evs = [LeavePool b]" "b = fst (leave_pool tid (owns_lock w) tp)"
        "b \<longrightarrow> pc w' = Returned \<and> \<not> owns_lock w'"
    using run_task_no_leave by auto
  then show ?thesis
  proof cases
    case 1
    with t show ?thesis by blast
  next
    case 2
    from 2(2) st have "b" by (simp add: leave_pool_stopped)
    with 2 t show ?thesis by simp
  qed
qed

lemma execute_thread_stopped:
  assumes "\<forall>env \<in> set envs. \<forall>sh. m_pool_state (fst sh) = STOPPED
             \<longrightarrow> m_pool_state (fst (env sh)) = STOPPED"
    and "m_pool_state tp = STOPPED"
  shows "m_pool_state (fst (snd (execute_thread Q tid envs (w, tp, q)))) = STOPPED \<and>
         (\<exists>evs. trace (fst (execute_thread Q tid envs (w, tp, q))) = trace w @ evs \<and>
                leave_is_last evs \<and>
                ((\<exists>e \<in> set evs. is_leave e) \<longrightarrow>
                   pc (fst (execute_thread Q tid envs (w, tp, q))) = Returned \<and>
                   \<not> owns_lock (fst (execute_thread Q tid envs (w, tp, q)))))"
  using assms
proof (induction envs arbitrary: w tp q)
  case Nil
  then show ?case by simp
next
  case (Cons env envs)
  obtain tp1 q1 where e: "env (tp, q) = (tp1, q1)" by (cases "env (tp, q)")
  from Cons.prems e have st1: "m_pool_state tp1 = STOPPED"
    by (metis fst_conv list.set_intros(1))
  obtain w2 tp2 q2 where s: "execute_thread_step Q tid (w, tp1, q1) = (w2, tp2, q2)"
    by (cases "execute_thread_step Q tid (w, tp1, q1)")
  from step_pool_state [of Q tid w tp1 q1] s st1 have st2: "m_pool_state tp2 = STOPPED"
    by simp
  have rely: "\<forall>env \<in> set envs. \<forall>sh. m_pool_state (fst sh) = STOPPED
             \<longrightarrow> m_pool_state (fst (env sh)) = STOPPED"
    using Cons.prems(1) by simp
  have run: "execute_thread Q tid (env # envs) (w, tp, q) = execute_thread Q tid envs (w2, tp2, q2)"
    by (simp add: e s)
  note IH = Cons.IH [OF rely st2, of w2 q2]
  from step_stopped [of tp1 Q tid w q1, OF st1] s
  consider evs where "trace w2 = trace w @ evs" "\<forall>e \<in> set evs. \<not> is_leave e"
    | "trace w2 = trace w @ [LeavePool True]" "pc w2 = Returned" "\<not> owns_lock w2"
    by auto
  then show ?case
  proof cases
    case 1
    from IH obtain evs2 where
      i: "trace (fst (execute_thread Q tid envs (w2, tp2, q2))) = trace w2 @ evs2"
        "leave_is_last evs2"
        "(\<exists>e \<in> set evs2. is_leave e) \<longrightarrow>
           pc (fst (execute_thread Q tid envs (w2, tp2, q2))) = Returned \<and>
           \<not> owns_lock (fst (execute_thread Q tid envs (w2, tp2, q2)))"
      by blast
    have "trace (fst (execute_thread Q tid envs (w2, tp2, q2))) = trace w @ (evs @ evs2)"
      using i(1) 1(1) by simp
    moreover have "leave_is_last (evs @ evs2)"
      using i(2) 1(2) by (simp add: leave_is_last_no_leave)
    moreover have "(\<exists>e \<in> set (evs @ evs2). is_leave e) \<longrightarrow>
           pc (fst (execute_thread Q tid envs (w2, tp2, q2))) = Returned \<and>
           \<not> owns_lock (fst (execute_thread Q tid envs (w2, tp2, q2)))"
      using i(3) 1(2) by auto
    ultimately show ?thesis
      using IH unfolding run by blast
  next
    case 2
    have "fst (execute_thread Q tid envs (w2, tp2, q2)) = w2"
      by (rule execute_thread_Returned [OF 2(2)])
    with 2 IH show ?thesis
      unfolding run by simp
  qed
qed

lemma disposal_ok_append:
  "disposal_ok xs \<Longrightarrow> disposal_ok ys \<Longrightarrow> disposal_ok (xs @ ys)"
  by (induction xs rule: disposal_ok.induct) (auto split: list.splits event.splits if_splits)

lemma disposal_ok_run_task: "disposal_ok (run_task t)"
  by (simp add: run_task_def)

lemma step_disposal_ok:
  assumes "disposal_ok (trace w)"
  shows "disposal_ok (trace (fst (execute_thread_step Q tid (w, tp, q))))"
proof -
  from step_trace [of Q tid w tp q] obtain evs where
    t: "trace (fst (execute_thread_step Q tid (w, tp, q))) = trace w @ evs" and
    c: "evs = [] \<or> (\<exists>t. evs = [Dequeue t]) \<or> (\<exists>t. evs = run_task t) \<or> (\<exists>b. evs = [LeavePool b])"
    by blast
  from c have "disposal_ok evs"
    using disposal_ok_run_task by auto
  with assms t show ?thesis by (simp add: disposal_ok_append)
qed

lemma execute_thread_disposal_ok:
  "disposal_ok (trace w) \<Longrightarrow> disposal_ok (trace (fst (execute_thread Q tid envs (w, sh))))"
proof (induction envs arbitrary: w sh)
  case Nil
  then show ?case by simp
next
  case (Cons env envs)
  obtain tp q where e: "env sh = (tp, q)" by (cases "env sh")
  obtain w2 sh2 where s: "execute_thread_step Q tid (w, tp, q) = (w2, sh2)"
    by (cases "execute_thread_step Q tid (w, tp, q)")
  from step_disposal_ok [OF Cons.prems, of Q tid tp q] s have "disposal_ok (trace w2)" by simp
  from Cons.IH [OF this, of sh2] show ?case by (simp add: e s)
qed

section \<open>A worker that sees \<open>STOPPED\<close> returns\<close>

text \<open>
  C1. \<open>destroy_threadpool\<close> begins by storing \<open>STOPPED\<close>. Let \<open>m_pool_state\<close>
  be \<open>STOPPED\<close> and let the other threads never store another value. Then, from
  any place of \<open>execute_thread\<close> and under any interleaving, \<open>leave_pool\<close> returns
  \<open>True\<close> without touching the pool, and in what the worker does from then on a call of
  \<open>leave_pool\<close>, if there is one, returned \<open>True\<close> and is the last event: no
  \<open>GetTask\<close> follows it, the worker has returned and holds no lock, and it stays
  returned.
\<close>

theorem C1_stopped_worker_leaves:
  assumes "m_pool_state tp = STOPPED"
    and "\<forall>env \<in> set envs. \<forall>sh. m_pool_state (fst sh) = STOPPED
           \<longrightarrow> m_pool_state (fst (env sh)) = STOPPED"
    and "execute_thread Q tid envs (w, tp, q) = (w', tp', q')"
  shows "m_pool_state (destroy_begin c tp0) = STOPPED \<and>
         leave_pool tid (owns_lock w) tp = (True, owns_lock w, tp) \<and>
         m_pool_state tp' = STOPPED \<and>
         (\<exists>evs. trace w' = trace w @ evs \<and> leave_is_last evs \<and>
                ((\<exists>e \<in> set evs. is_leave e) \<longrightarrow> pc w' = Returned \<and> \<not> owns_lock w'))"
  using execute_thread_stopped [OF assms(2) assms(1), of Q tid w q] assms(3)
    leave_pool_stopped [OF assms(1)]
  by (simp add: destroy_begin_def split_beta)

theorem C1_stopped_worker_leaves_witness:
  "destroy_begin 0 pool_of_two = pool_stopped \<and>
   m_pool_state pool_stopped = STOPPED \<and>
   execute_thread fifo_queue 1
       [id, (\<lambda>sh. (stop_thread_notify (fst sh), snd sh)), id, id, id,
        (\<lambda>sh. (fst sh, snd sh @ [task_b]))]
       (worker_at Start, pool_stopped, [task_a]) =
     (\<lparr>pc = Returned, owns_lock = False, within_task = False,
       trace = [Dequeue (Some task_a), Invoke task_a, Delete task_a, LeavePool True]\<rparr>,
      pool_stopped\<lparr>m_thread_awake := 1, m_is_stopped := [True],
                     m_task_cond := [notify_all, notify_one]\<rparr>, [task_b]) \<and>
   leave_pool 1 False pool_stopped = (True, False, pool_stopped) \<and>
   leave_is_last [Dequeue (Some task_a), Invoke task_a, Delete task_a, LeavePool True]"
proof -
  have d: "destroy_begin 0 pool_of_two = pool_stopped"
    by (simp add: destroy_begin_def pool_stopped_def pool_of_two_def GetThisThreadID_def
        map_find_def map_index_def)
  have a: "m_pool_state pool_stopped = STOPPED"
    by (simp add: pool_stopped_def)
  have b: "\<forall>env \<in> set [id, (\<lambda>sh. (stop_thread_notify (fst sh), snd sh)), id, id, id,
                        (\<lambda>sh. (fst sh, snd sh @ [task_b]))].
      \<forall>sh. m_pool_state (fst sh) = STOPPED \<longrightarrow> m_pool_state (fst (env sh)) = STOPPED"
    by (simp add: stop_thread_notify_def)
  have c: "execute_thread fifo_queue 1
       [id, (\<lambda>sh. (stop_thread_notify (fst sh), snd sh)), id, id, id,
        (\<lambda>sh. (fst sh, snd sh @ [task_b]))]
       (worker_at Start, pool_stopped, [task_a]) =
     (\<lparr>pc = Returned, owns_lock = False, within_task = False,
       trace = [Dequeue (Some task_a), Invoke task_a, Delete task_a, LeavePool True]\<rparr>,
      pool_stopped\<lparr>m_thread_awake := 1, m_is_stopped := [True],
                     m_task_cond := [notify_all, notify_one]\<rparr>, [task_b])"
    by (simp add: execute_thread_step_def worker_at_def fifo_queue_def leave_or_def
        leave_pool_def run_task_def task_a_def pool_stopped_def pool_of_two_def STOPPED_def
        stop_thread_notify_def)
  from C1_stopped_worker_leaves [OF a b c, of 0 pool_of_two] a c d show ?thesis
    by (simp add: worker_at_def)
qed

section \<open>The wait discipline\<close>

text \<open>
  C4. The predicate of the condition wait holds exactly when the queue is not empty, or
  \<open>true_size()\<close> is positive, or the numeric pool state is positive; a worker in the
  wait goes on when it holds and stays in the wait otherwise. The wait is entered only
  through the lock at line 571, which is reached only from the test at line 565 with
  \<open>true_size() = 0\<close> (any other size leaves the loop), which is reached only after a
  \<open>leave_pool\<close> that returned \<open>False\<close>, called only when \<open>empty()\<close> held at line 555.
\<close>

theorem C4_wait_discipline:
  fixes Q tid w tp q
  defines "w' \<equiv> fst (execute_thread_step Q tid (w, tp, q))"
  shows "(wake Q tp q \<longleftrightarrow> \<not> queue_empty Q q \<or> 0 < true_size Q q \<or> 0 < m_pool_state tp) \<and>
         (pc w = Wait \<longrightarrow> pc w' = (if wake Q tp q then Leave2 else Wait)) \<and>
         (pc w' = Wait \<longrightarrow> pc w = Sleep \<or> (pc w = Wait \<and> \<not> wake Q tp q)) \<and>
         (pc w' = Sleep \<longrightarrow> pc w = TrueSize \<and> true_size Q q = 0) \<and>
         (pc w = TrueSize \<longrightarrow> pc w' = (if true_size Q q = 0 then Sleep else Release)) \<and>
         (pc w' = TrueSize \<longrightarrow> pc w = Leave1 \<and> \<not> fst (leave_pool tid (owns_lock w) tp)) \<and>
         (pc w' = Leave1 \<longrightarrow> pc w = WhileEmpty \<and> queue_empty Q q)"
  unfolding w'_def
  by (cases "pc w") (simp_all add: step_at leave_or_result wake_def split: option.splits)

theorem C4_wait_discipline_witness:
  "pc (worker_at TrueSize) = TrueSize \<and>
   pc (fst (execute_thread_step fifo_queue 1 (worker_at TrueSize, pool_of_none, []))) = Sleep \<and>
   true_size fifo_queue [] = 0 \<and>
   pc (fst (execute_thread_step fifo_queue 1 (worker_at TrueSize, pool_of_none, [task_a]))) = Release \<and>
   \<not> wake fifo_queue pool_of_none [] \<and>
   pc (fst (execute_thread_step fifo_queue 1 (worker_at Wait, pool_of_none, []))) = Wait \<and>
   wake fifo_queue pool_of_none [task_a] \<and>
   pc (fst (execute_thread_step fifo_queue 1 (worker_at Wait, pool_of_none, [task_a]))) = Leave2 \<and>
   wake fifo_queue pool_of_two [] \<and>
   pc (fst (execute_thread_step fifo_queue 1 (worker_at Wait, pool_of_two, []))) = Leave2"
proof -
  have p: "pc (worker_at TrueSize) = TrueSize" "pc (worker_at Wait) = Wait"
    by (simp_all add: worker_at_def)
  have q: "true_size fifo_queue [] = 0" "true_size fifo_queue [task_a] = 1"
    "queue_empty fifo_queue []" "\<not> queue_empty fifo_queue [task_a]"
    "m_pool_state pool_of_none = 0" "m_pool_state pool_of_two = 1"
    by (simp_all add: fifo_queue_def pool_of_none_def pool_of_two_def NONINIT_def STARTED_def)
  from C4_wait_discipline [of fifo_queue pool_of_none "[]" "worker_at TrueSize" 1]
    C4_wait_discipline [of fifo_queue pool_of_none "[task_a]" "worker_at TrueSize" 1]
    C4_wait_discipline [of fifo_queue pool_of_none "[]" "worker_at Wait" 1]
    C4_wait_discipline [of fifo_queue pool_of_none "[task_a]" "worker_at Wait" 1]
    C4_wait_discipline [of fifo_queue pool_of_two "[]" "worker_at Wait" 1]
  show ?thesis
    by (simp add: p q)
qed

section \<open>\<open>leave_pool\<close> in the state \<open>PARTIAL\<close>\<close>

text \<open>
  C5. In the state \<open>PARTIAL\<close>, when \<open>m_is_stopped\<close> is not empty and its last token
  is true, \<open>leave_pool\<close> returns \<open>True\<close> holding the mutex, with the worker's identity
  appended to \<open>m_stop_threads\<close> and the token popped, and the worker returns from
  \<open>execute_thread\<close> at each of the three call sites; otherwise \<open>leave_pool\<close> returns
  \<open>False\<close> with the mutex released and the pool unchanged, and the worker goes on in
  its loop.
\<close>

theorem C5_leave_pool_partial:
  assumes "m_pool_state tp = PARTIAL"
  shows "(m_is_stopped tp \<noteq> [] \<and> last (m_is_stopped tp) \<longrightarrow>
            leave_pool tid owns tp =
              (True, True, tp\<lparr>m_stop_threads := m_stop_threads tp @ [tid],
                              m_is_stopped := butlast (m_is_stopped tp)\<rparr>) \<and>
            (pc w \<in> {Leave1, Leave2, Leave3} \<longrightarrow>
               execute_thread_step Q tid (w, tp, q) =
                 (w\<lparr>trace := trace w @ [LeavePool True], pc := Returned, owns_lock := False\<rparr>,
                  tp\<lparr>m_stop_threads := m_stop_threads tp @ [tid],
                     m_is_stopped := butlast (m_is_stopped tp)\<rparr>, q))) \<and>
         (\<not> (m_is_stopped tp \<noteq> [] \<and> last (m_is_stopped tp)) \<longrightarrow>
            leave_pool tid owns tp = (False, False, tp) \<and>
            (pc w = Leave1 \<longrightarrow>
               execute_thread_step Q tid (w, tp, q) =
                 (w\<lparr>trace := trace w @ [LeavePool False], pc := TrueSize, owns_lock := False\<rparr>,
                  tp, q)) \<and>
            (pc w = Leave2 \<longrightarrow>
               execute_thread_step Q tid (w, tp, q) =
                 (w\<lparr>trace := trace w @ [LeavePool False], pc := Awake, owns_lock := False\<rparr>,
                  tp, q)) \<and>
            (pc w = Leave3 \<longrightarrow>
               execute_thread_step Q tid (w, tp, q) =
                 (w\<lparr>trace := trace w @ [LeavePool False], pc := WhileNotEmpty,
                    owns_lock := False, within_task := True\<rparr>, tp, q)))"
proof (cases "m_is_stopped tp \<noteq> [] \<and> last (m_is_stopped tp)")
  case True
  then have l: "\<And>ow. leave_pool tid ow tp =
              (True, True, tp\<lparr>m_stop_threads := m_stop_threads tp @ [tid],
                              m_is_stopped := butlast (m_is_stopped tp)\<rparr>)"
    using leave_pool_partial_token [OF assms] by blast
  from True show ?thesis
    by (auto simp: l step_at leave_or_result)
next
  case False
  then have l: "\<And>ow. leave_pool tid ow tp = (False, False, tp)"
    using leave_pool_partial_no_token [OF assms] by blast
  from False show ?thesis
    by (auto simp: l step_at leave_or_result)
qed

theorem C5_leave_pool_partial_witness:
  "m_pool_state pool_partial = PARTIAL \<and>
   m_is_stopped pool_partial \<noteq> [] \<and> last (m_is_stopped pool_partial) \<and>
   pc (worker_at Leave2) \<in> {Leave1, Leave2, Leave3} \<and>
   execute_thread_step fifo_queue 2 (worker_at Leave2, pool_partial, []) =
     (\<lparr>pc = Returned, owns_lock = False, within_task = False, trace = [LeavePool True]\<rparr>,
      pool_acked, []) \<and>
   m_pool_state pool_acked = PARTIAL \<and>
   \<not> (m_is_stopped pool_acked \<noteq> [] \<and> last (m_is_stopped pool_acked)) \<and>
   pc (worker_at Leave1) = Leave1 \<and>
   execute_thread_step fifo_queue 1 (worker_at Leave1, pool_acked, []) =
     (\<lparr>pc = TrueSize, owns_lock = False, within_task = False, trace = [LeavePool False]\<rparr>,
      pool_acked, [])"
proof -
  have a: "m_pool_state pool_partial = PARTIAL" "m_pool_state pool_acked = PARTIAL"
    by (simp_all add: pool_partial_def pool_acked_def)
  have b: "m_is_stopped pool_partial \<noteq> [] \<and> last (m_is_stopped pool_partial)"
    "\<not> (m_is_stopped pool_acked \<noteq> [] \<and> last (m_is_stopped pool_acked))"
    by (simp_all add: pool_partial_def pool_acked_def pool_of_two_def)
  have c: "pc (worker_at Leave2) \<in> {Leave1, Leave2, Leave3}" "pc (worker_at Leave1) = Leave1"
    by (simp_all add: worker_at_def)
  have d: "pool_partial\<lparr>m_stop_threads := m_stop_threads pool_partial @ [2],
                       m_is_stopped := butlast (m_is_stopped pool_partial)\<rparr> = pool_acked"
    by (simp add: pool_partial_def pool_acked_def pool_of_two_def)
  from C5_leave_pool_partial [OF a(1), of 2 False "worker_at Leave2" fifo_queue "[]"]
    C5_leave_pool_partial [OF a(2), of 1 False "worker_at Leave1" fifo_queue "[]"]
    a b c
  show ?thesis
    by (simp add: d) (simp add: worker_at_def)
qed

section \<open>Disposal of tasks\<close>

text \<open>
  C6. In every run of a worker, from the start of \<open>execute_thread\<close> or from any state
  whose trace is well-formed, each invocation of a task without a group is followed at
  once by its \<open>delete\<close>, and nothing else is deleted; both the dummy run and the drain
  loop invoke the task and delete it exactly when it has no group.
\<close>

theorem C6_task_disposal:
  "(disposal_ok (trace w) \<longrightarrow> disposal_ok (trace (fst (execute_thread Q tid envs (w, sh))))) \<and>
   disposal_ok (trace (fst (execute_thread Q tid envs (fst (start_thread tid idx tp0), sh)))) \<and>
   (pc w = DummyTask t \<or> pc w = RunTask t \<longrightarrow>
      trace (fst (execute_thread_step Q tid (w, tp, q))) =
        trace w @ Invoke t # (if group t then [] else [Delete t]))"
proof (intro conjI impI)
  assume "disposal_ok (trace w)"
  then show "disposal_ok (trace (fst (execute_thread Q tid envs (w, sh))))"
    by (rule execute_thread_disposal_ok)
next
  have "disposal_ok (trace (fst (start_thread tid idx tp0)))"
    by (simp add: start_thread_def)
  then show "disposal_ok (trace (fst (execute_thread Q tid envs (fst (start_thread tid idx tp0), sh))))"
    by (rule execute_thread_disposal_ok)
next
  assume "pc w = DummyTask t \<or> pc w = RunTask t"
  then show "trace (fst (execute_thread_step Q tid (w, tp, q))) =
        trace w @ Invoke t # (if group t then [] else [Delete t])"
    by (auto simp: step_at run_task_def)
qed

theorem C6_task_disposal_witness:
  "trace (fst (execute_thread fifo_queue 1 [id, id, id, id, id, id, id, id, id, id, id, id]
           (fst (start_thread 1 1 pool_of_two), pool_of_two, [task_b, task_a, task_b]))) =
     [Dequeue (Some task_b), Invoke task_b, LeavePool False,
      Dequeue (Some task_a), Invoke task_a, Delete task_a,
      Dequeue (Some task_b), Invoke task_b] \<and>
   disposal_ok [Dequeue (Some task_b), Invoke task_b, LeavePool False,
      Dequeue (Some task_a), Invoke task_a, Delete task_a,
      Dequeue (Some task_b), Invoke task_b] \<and>
   \<not> group task_a \<and> group task_b \<and>
   pc (worker_at (RunTask task_a)) = RunTask task_a \<and>
   trace (fst (execute_thread_step fifo_queue 1 (worker_at (RunTask task_a), pool_of_two, []))) =
     [Invoke task_a, Delete task_a] \<and>
   pc (worker_at (DummyTask task_b)) = DummyTask task_b \<and>
   trace (fst (execute_thread_step fifo_queue 1 (worker_at (DummyTask task_b), pool_of_two, []))) =
     [Invoke task_b]"
proof -
  have r: "trace (fst (execute_thread fifo_queue 1 [id, id, id, id, id, id, id, id, id, id, id, id]
           (fst (start_thread 1 1 pool_of_two), pool_of_two, [task_b, task_a, task_b]))) =
     [Dequeue (Some task_b), Invoke task_b, LeavePool False,
      Dequeue (Some task_a), Invoke task_a, Delete task_a,
      Dequeue (Some task_b), Invoke task_b]"
    by (simp add: execute_thread_step_def start_thread_def fifo_queue_def leave_or_def
        leave_pool_def run_task_def task_a_def task_b_def pool_of_two_def STARTED_def
        STOPPED_def PARTIAL_def)
  have g: "\<not> group task_a" "group task_b"
    "pc (worker_at (RunTask task_a)) = RunTask task_a"
    "pc (worker_at (DummyTask task_b)) = DummyTask task_b"
    "trace (worker_at (RunTask task_a)) = []" "trace (worker_at (DummyTask task_b)) = []"
    by (simp_all add: task_a_def task_b_def worker_at_def)
  note T1 = C6_task_disposal [of "worker_at (RunTask task_a)" fifo_queue 1
      "[id, id, id, id, id, id, id, id, id, id, id, id]"
      "(pool_of_two, [task_b, task_a, task_b])" 1 pool_of_two task_a pool_of_two "[]"]
  note T2 = C6_task_disposal [of "worker_at (DummyTask task_b)" fifo_queue 1 "[]"
      "(pool_of_two, [])" 1 pool_of_two task_b pool_of_two "[]"]
  have d: "disposal_ok [Dequeue (Some task_b), Invoke task_b, LeavePool False,
      Dequeue (Some task_a), Invoke task_a, Delete task_a,
      Dequeue (Some task_b), Invoke task_b]"
    using conjunct1 [OF conjunct2 [OF T1]] unfolding r .
  have t1: "trace (fst (execute_thread_step fifo_queue 1
              (worker_at (RunTask task_a), pool_of_two, []))) = [Invoke task_a, Delete task_a]"
    using conjunct2 [OF conjunct2 [OF T1]] g by simp
  have t2: "trace (fst (execute_thread_step fifo_queue 1
              (worker_at (DummyTask task_b), pool_of_two, []))) = [Invoke task_b]"
    using conjunct2 [OF conjunct2 [OF T2]] g by simp
  from r d t1 t2 g show ?thesis
    by (simp del: execute_thread.simps)
qed

section \<open>Calling \<open>stop_thread\<close> on a pool the constructor built\<close>

text \<open>In a state other than \<open>PARTIAL\<close> a step of a worker leaves the alive flag, the
  state, the acknowledgements, \<open>m_main_threads\<close> and \<open>m_pool_size\<close> as they were.\<close>

lemma step_keeps:
  assumes "m_pool_state tp \<noteq> PARTIAL"
  shows "m_alive_flag (fst (snd (execute_thread_step Q tid (w, tp, q)))) = m_alive_flag tp"
    and "m_pool_state (fst (snd (execute_thread_step Q tid (w, tp, q)))) = m_pool_state tp"
    and "m_stop_threads (fst (snd (execute_thread_step Q tid (w, tp, q)))) = m_stop_threads tp"
    and "m_main_threads (fst (snd (execute_thread_step Q tid (w, tp, q)))) = m_main_threads tp"
    and "m_pool_size (fst (snd (execute_thread_step Q tid (w, tp, q)))) = m_pool_size tp"
proof -
  have l: "snd (snd (leave_pool tid (owns_lock w) tp)) = tp"
    using assms by (cases rule: leave_pool_cases [of tp tid "owns_lock w"]) simp_all
  show "m_alive_flag (fst (snd (execute_thread_step Q tid (w, tp, q)))) = m_alive_flag tp"
    by (cases "pc w") (simp_all add: step_at leave_or_result l split: option.splits)
  show "m_pool_state (fst (snd (execute_thread_step Q tid (w, tp, q)))) = m_pool_state tp"
    by (cases "pc w") (simp_all add: step_at leave_or_result l split: option.splits)
  show "m_stop_threads (fst (snd (execute_thread_step Q tid (w, tp, q)))) = m_stop_threads tp"
    by (cases "pc w") (simp_all add: step_at leave_or_result l split: option.splits)
  show "m_main_threads (fst (snd (execute_thread_step Q tid (w, tp, q)))) = m_main_threads tp"
    by (cases "pc w") (simp_all add: step_at leave_or_result l split: option.splits)
  show "m_pool_size (fst (snd (execute_thread_step Q tid (w, tp, q)))) = m_pool_size tp"
    by (cases "pc w") (simp_all add: step_at leave_or_result l split: option.splits)
qed

lemma worker_steps_keeps:
  "m_pool_state tp \<noteq> PARTIAL \<Longrightarrow>
   m_alive_flag (worker_steps Q xs tp) = m_alive_flag tp \<and>
   m_pool_state (worker_steps Q xs tp) = m_pool_state tp \<and>
   m_stop_threads (worker_steps Q xs tp) = m_stop_threads tp \<and>
   m_main_threads (worker_steps Q xs tp) = m_main_threads tp \<and>
   m_pool_size (worker_steps Q xs tp) = m_pool_size tp"
proof (induction xs arbitrary: tp)
  case Nil
  show ?case by simp
next
  case (Cons x xs)
  obtain tid w q where x: "x = (tid, w, q)" by (cases x)
  let ?tp1 = "fst (snd (execute_thread_step Q tid (w, tp, q)))"
  note k = step_keeps [OF Cons.prems, of Q tid w q]
  from k(2) Cons.prems have "m_pool_state ?tp1 \<noteq> PARTIAL" by simp
  from Cons.IH [OF this] k show ?case by (simp add: x)
qed

lemma stop_thread_between_quiet:
  assumes "m_alive_flag tp" and "m_pool_state tp \<noteq> PARTIAL" and "m_stop_threads tp = []"
    and "m_pool_size tp = length (m_main_threads tp)"
  shows "\<exists>n tp'. stop_thread_between (worker_steps Q xs) tp = Inr (n, tp') \<and>
           n = m_pool_size tp \<and>
           m_alive_flag tp' \<and> m_pool_state tp' = m_pool_state tp \<and> m_stop_threads tp' = [] \<and>
           m_main_threads tp' = m_main_threads tp \<and> m_pool_size tp' = m_pool_size tp"
proof (cases "m_pool_size tp = 0")
  case True
  with assms show ?thesis by (simp add: stop_thread_between_def)
next
  case False
  let ?tp0 = "stop_thread_notify tp"
  let ?tp1 = "worker_steps Q xs ?tp0"
  have p: "m_pool_state ?tp0 \<noteq> PARTIAL"
    using assms(2) by (simp add: stop_thread_notify_def)
  from worker_steps_keeps [OF p, of Q xs] assms
  have g: "m_stop_threads ?tp1 = []" "m_main_threads ?tp1 = m_main_threads tp"
    "m_alive_flag ?tp1" "m_pool_state ?tp1 = m_pool_state tp"
    by (simp_all add: stop_thread_notify_def)
  from False assms(1) g assms(4) show ?thesis
    by (simp add: stop_thread_between_def stop_thread_drain_def)
qed

lemma worker_steps_quiet:
  assumes "m_alive_flag tp" and "m_pool_state tp \<noteq> PARTIAL" and "m_stop_threads tp = []"
    and "m_pool_size tp = length (m_main_threads tp)"
  shows "m_alive_flag (worker_steps Q xs tp) \<and> m_pool_state (worker_steps Q xs tp) = m_pool_state tp \<and>
         m_stop_threads (worker_steps Q xs tp) = [] \<and>
         m_main_threads (worker_steps Q xs tp) = m_main_threads tp \<and>
         m_pool_size (worker_steps Q xs tp) = m_pool_size tp"
  using worker_steps_keeps [OF assms(2), of Q xs] assms by simp

lemma stop_thread_calls_quiet:
  assumes "m_alive_flag tp" and "m_pool_state tp \<noteq> PARTIAL" and "m_stop_threads tp = []"
    and "m_pool_size tp = length (m_main_threads tp)"
  shows "\<exists>tp'. stop_thread_calls Q calls tp = Inr tp' \<and>
           m_pool_size tp' = m_pool_size tp \<and> m_main_threads tp' = m_main_threads tp \<and>
           m_stop_threads tp' = []"
  using assms
proof (induction calls arbitrary: tp)
  case Nil
  then show ?case by simp
next
  case (Cons c calls)
  obtain before between where c: "c = (before, between)" by (cases c)
  let ?tp0 = "worker_steps Q before tp"
  from worker_steps_quiet [OF Cons.prems, of Q before]
  have q0: "m_alive_flag ?tp0" "m_pool_state ?tp0 \<noteq> PARTIAL" "m_stop_threads ?tp0 = []"
    "m_pool_size ?tp0 = length (m_main_threads ?tp0)"
    "m_pool_size ?tp0 = m_pool_size tp" "m_main_threads ?tp0 = m_main_threads tp"
    using Cons.prems by simp_all
  from stop_thread_between_quiet [OF q0(1-4), of Q between] obtain n tp1 where
    s: "stop_thread_between (worker_steps Q between) ?tp0 = Inr (n, tp1)"
      "m_alive_flag tp1" "m_pool_state tp1 = m_pool_state ?tp0" "m_stop_threads tp1 = []"
      "m_main_threads tp1 = m_main_threads ?tp0" "m_pool_size tp1 = m_pool_size ?tp0"
    by blast
  have q1: "m_alive_flag tp1" "m_pool_state tp1 \<noteq> PARTIAL" "m_stop_threads tp1 = []"
    "m_pool_size tp1 = length (m_main_threads tp1)"
    using s q0 by simp_all
  from Cons.IH [OF q1] obtain tp2 where
    t: "stop_thread_calls Q calls tp1 = Inr tp2" "m_pool_size tp2 = m_pool_size tp1"
      "m_main_threads tp2 = m_main_threads tp1" "m_stop_threads tp2 = []"
    by blast
  from s t q0 show ?case by (simp add: c)
qed

lemma stop_thread_quiet:
  assumes "m_alive_flag tp" and "m_stop_threads tp = []"
    and "m_pool_size tp = length (m_main_threads tp)"
  shows "\<exists>tp'. stop_thread tp = Inr (m_pool_size tp, tp') \<and> m_alive_flag tp' \<and>
           m_stop_threads tp' = [] \<and> m_pool_size tp' = length (m_main_threads tp') \<and>
           m_pool_size tp' = m_pool_size tp"
  using assms by (auto simp: stop_thread_unfold Let_def)

lemma stop_thread_while_never:
  assumes "stop_thread_while n tp = Some r"
  shows "\<not> (m_alive_flag tp \<and> m_stop_threads tp = [] \<and>
            m_pool_size tp = length (m_main_threads tp) \<and> n < m_pool_size tp)"
proof (rule stop_thread_while.raw_induct
    [where P = "\<lambda>n tp r. \<not> (m_alive_flag tp \<and> m_stop_threads tp = [] \<and>
            m_pool_size tp = length (m_main_threads tp) \<and> n < m_pool_size tp)", OF _ assms],
    goal_cases)
  case (1 f n tp r)
  show ?case
  proof
    assume a: "m_alive_flag tp \<and> m_stop_threads tp = [] \<and>
            m_pool_size tp = length (m_main_threads tp) \<and> n < m_pool_size tp"
    then obtain tp' where
      s: "stop_thread tp = Inr (m_pool_size tp, tp')" "m_alive_flag tp'"
        "m_stop_threads tp' = []" "m_pool_size tp' = length (m_main_threads tp')"
        "m_pool_size tp' = m_pool_size tp"
      using stop_thread_quiet [of tp] by blast
    with 1(2) a have "f n tp' = Some r" by simp
    from 1(1) [OF this] s a show False by simp
  qed
qed

lemma stop_thread_while_None:
  assumes "m_alive_flag tp" and "m_stop_threads tp = []"
    and "m_pool_size tp = length (m_main_threads tp)" and "n < m_pool_size tp"
  shows "stop_thread_while n tp = None"
proof (cases "stop_thread_while n tp")
  case None
  then show ?thesis .
next
  case (Some r)
  from stop_thread_while_never [OF Some] assms show ?thesis by simp
qed

text \<open>
  C2. The claim has \<open>k\<close> calls of \<open>stop_thread\<close> decrease \<open>m_pool_size\<close> by \<open>k\<close>.
  The code does this instead. Take an alive pool that is not in the state \<open>PARTIAL\<close>,
  with no acknowledgement pending and \<open>m_pool_size\<close> the length of \<open>m_main_threads\<close>:
  every pool the constructor builds is such, and no function of ThreadPool.cc stores
  \<open>PARTIAL\<close>. Then \<open>k\<close> calls of \<open>stop_thread\<close> in a row return with \<open>m_pool_size\<close>
  as it was, for every \<open>k\<close>; so do any calls with any steps of any workers before them
  and between their two critical sections, and \<open>m_main_threads\<close> is as it was; and
  \<open>initialize_threadpool\<close> with a smaller proposed size of at least 1, which relies on
  \<open>stop_thread\<close> to shrink the pool, never leaves its loop
  \<open>while(stop_thread() > proposed_size);\<close>.
\<close>

theorem C2_stop_thread_never_shrinks:
  assumes "m_alive_flag tp" and "m_pool_state tp \<noteq> PARTIAL" and "m_stop_threads tp = []"
    and "m_pool_size tp = length (m_main_threads tp)"
  shows "(\<exists>tp'. stop_thread_times k tp = Inr tp' \<and> m_pool_size tp' = m_pool_size tp) \<and>
         (\<exists>tp'. stop_thread_calls Q calls tp = Inr tp' \<and>
                m_pool_size tp' = m_pool_size tp \<and> m_main_threads tp' = m_main_threads tp \<and>
                m_stop_threads tp' = []) \<and>
         (m_pool_state tp = STARTED \<and> 1 \<le> n \<and> n < m_pool_size tp \<longrightarrow>
            initialize_threadpool c sp n tp = None)"
proof (intro conjI impI)
  have "settled tp" using assms by (simp add: settled_def)
  from stop_thread_times_settled [OF this, of k]
  show "\<exists>tp'. stop_thread_times k tp = Inr tp' \<and> m_pool_size tp' = m_pool_size tp"
    by blast
next
  from stop_thread_calls_quiet [OF assms]
  show "\<exists>tp'. stop_thread_calls Q calls tp = Inr tp' \<and>
                m_pool_size tp' = m_pool_size tp \<and> m_main_threads tp' = m_main_threads tp \<and>
                m_stop_threads tp' = []" .
next
  assume a: "m_pool_state tp = STARTED \<and> 1 \<le> n \<and> n < m_pool_size tp"
  let ?tp2 = "initialize_begin tp"
  have b: "m_alive_flag ?tp2" "m_stop_threads ?tp2 = []"
    "m_pool_size ?tp2 = length (m_main_threads ?tp2)" "n < m_pool_size ?tp2"
    "m_pool_state ?tp2 = STARTED"
    using assms a by (simp_all add: initialize_begin_def)
  from stop_thread_while_None [OF b(1-4)] a b
  show "initialize_threadpool c sp n tp = None"
    by (simp add: initialize_threadpool_def Let_def)
qed

theorem C2_stop_thread_never_shrinks_witness:
  "ThreadPool_ctor 0 (\<lambda>i. Some (Suc i)) 2 [] = Some (Inr pool_of_two) \<and>
   m_alive_flag pool_of_two \<and> m_pool_state pool_of_two = STARTED \<and>
   m_stop_threads pool_of_two = [] \<and> m_pool_size pool_of_two = 2 \<and>
   length (m_main_threads pool_of_two) = 2 \<and>
   stop_thread_times 1 pool_of_two =
     Inr (pool_of_two\<lparr>m_is_stopped := [True], m_task_cond := [notify_one]\<rparr>) \<and>
   stop_thread_calls fifo_queue
       [([(1, worker_at Wait, [])], [(2, worker_at Wait, []), (2, worker_at Leave2, [])])]
       pool_of_two =
     Inr (pool_of_two\<lparr>m_is_stopped := [True], m_task_cond := [notify_one]\<rparr>) \<and>
   m_pool_size (pool_of_two\<lparr>m_is_stopped := [True], m_task_cond := [notify_one]\<rparr>) = 2 \<and>
   initialize_threadpool 0 (\<lambda>i. Some (Suc i)) 1 pool_of_two = None"
proof -
  have h: "m_alive_flag pool_of_two" "m_pool_state pool_of_two \<noteq> PARTIAL"
    "m_stop_threads pool_of_two = []"
    "m_pool_size pool_of_two = length (m_main_threads pool_of_two)"
    by (simp_all add: pool_of_two_def STARTED_def PARTIAL_def)
  have v: "m_pool_state pool_of_two = STARTED" "m_pool_size pool_of_two = 2"
    "length (m_main_threads pool_of_two) = 2"
    by (simp_all add: pool_of_two_def)
  have t: "stop_thread_times 1 pool_of_two =
     Inr (pool_of_two\<lparr>m_is_stopped := [True], m_task_cond := [notify_one]\<rparr>)"
    by (simp add: pool_of_two_def stop_thread_unfold Let_def)
  have s: "stop_thread_calls fifo_queue
       [([(1, worker_at Wait, [])], [(2, worker_at Wait, []), (2, worker_at Leave2, [])])]
       pool_of_two =
     Inr (pool_of_two\<lparr>m_is_stopped := [True], m_task_cond := [notify_one]\<rparr>)"
    by (simp add: stop_thread_between_def stop_thread_notify_def stop_thread_drain_def
        execute_thread_step_def worker_at_def wake_def fifo_queue_def leave_or_def
        leave_pool_def pool_of_two_def STARTED_def STOPPED_def PARTIAL_def)
  from C2_stop_thread_never_shrinks [OF h, of 1 fifo_queue
      "[([(1, worker_at Wait, [])], [(2, worker_at Wait, []), (2, worker_at Leave2, [])])]"
      1 0 "\<lambda>i. Some (Suc i)"] v
  have i: "initialize_threadpool 0 (\<lambda>i. Some (Suc i)) 1 pool_of_two = None"
    by simp
  from ctor_two h v t s i show ?thesis
    by simp
qed

section \<open>\<open>stop_thread\<close> never changes the pool state\<close>

text \<open>
  C10. \<open>stop_thread\<close>, when it returns, has left \<open>m_pool_state\<close> as it was; called on
  a pool that is not alive or of size 0 it returns 0 and changes nothing; and a call of
  \<open>leave_pool\<close>, or any step of a worker, that changes \<open>m_is_stopped\<close> finds the
  state \<open>PARTIAL\<close> (and the step is one of the three calls of \<open>leave_pool\<close>).
\<close>

theorem C10_stop_thread_keeps_pool_state:
  "(stop_thread tp = Inr (n, tp') \<longrightarrow> m_pool_state tp' = m_pool_state tp) \<and>
   (\<not> m_alive_flag tp \<or> m_pool_size tp = 0 \<longrightarrow> stop_thread tp = Inr (0, tp)) \<and>
   (m_is_stopped (snd (snd (leave_pool tid owns tp))) \<noteq> m_is_stopped tp \<longrightarrow>
      m_pool_state tp = PARTIAL) \<and>
   (m_is_stopped (fst (snd (execute_thread_step Q tid (w, tp, q)))) \<noteq> m_is_stopped tp \<longrightarrow>
      m_pool_state tp = PARTIAL \<and> pc w \<in> {Leave1, Leave2, Leave3})"
proof (intro conjI impI)
  assume "stop_thread tp = Inr (n, tp')"
  then show "m_pool_state tp' = m_pool_state tp"
    by (rule stop_thread_pool_state)
next
  assume "\<not> m_alive_flag tp \<or> m_pool_size tp = 0"
  then show "stop_thread tp = Inr (0, tp)"
    by (rule stop_thread_guard)
next
  assume "m_is_stopped (snd (snd (leave_pool tid owns tp))) \<noteq> m_is_stopped tp"
  then show "m_pool_state tp = PARTIAL"
    by (cases rule: leave_pool_cases [of tp tid owns]) simp_all
next
  assume a: "m_is_stopped (fst (snd (execute_thread_step Q tid (w, tp, q)))) \<noteq> m_is_stopped tp"
  have l: "m_is_stopped (snd (snd (leave_pool tid (owns_lock w) tp))) \<noteq> m_is_stopped tp
        \<Longrightarrow> m_pool_state tp = PARTIAL"
    by (cases rule: leave_pool_cases [of tp tid "owns_lock w"]) simp_all
  from a show "m_pool_state tp = PARTIAL"
    by (cases "pc w") (auto simp: step_at leave_or_result l split: option.splits if_splits)
  from a show "pc w \<in> {Leave1, Leave2, Leave3}"
    by (cases "pc w") (auto simp: step_at split: option.splits if_splits)
qed

theorem C10_stop_thread_keeps_pool_state_witness:
  "stop_thread pool_of_two =
     Inr (2, pool_of_two\<lparr>m_is_stopped := [True], m_task_cond := [notify_one]\<rparr>) \<and>
   m_pool_state (pool_of_two\<lparr>m_is_stopped := [True], m_task_cond := [notify_one]\<rparr>) = STARTED \<and>
   \<not> m_alive_flag pool_of_none \<and> stop_thread pool_of_none = Inr (0, pool_of_none) \<and>
   m_is_stopped (snd (snd (leave_pool 2 False pool_partial))) \<noteq> m_is_stopped pool_partial \<and>
   m_pool_state pool_partial = PARTIAL \<and>
   m_is_stopped (fst (snd (execute_thread_step fifo_queue 2 (worker_at Leave3, pool_partial, []))))
     \<noteq> m_is_stopped pool_partial \<and>
   pc (worker_at Leave3) \<in> {Leave1, Leave2, Leave3}"
proof -
  have s: "stop_thread pool_of_two =
     Inr (2, pool_of_two\<lparr>m_is_stopped := [True], m_task_cond := [notify_one]\<rparr>)"
    by (simp add: stop_thread_unfold pool_of_two_def Let_def)
  have a: "\<not> m_alive_flag pool_of_none" "m_pool_state pool_of_two = STARTED"
    by (simp_all add: pool_of_none_def pool_of_two_def)
  have l: "m_is_stopped (snd (snd (leave_pool 2 False pool_partial))) \<noteq> m_is_stopped pool_partial"
    by (simp add: leave_pool_partial) (simp add: pool_acked_def pool_partial_def pool_of_two_def)
  have e: "m_is_stopped (fst (snd (execute_thread_step fifo_queue 2 (worker_at Leave3, pool_partial, []))))
     \<noteq> m_is_stopped pool_partial"
    by (simp add: execute_thread_step_def worker_at_def leave_or_def leave_pool_partial)
       (simp add: pool_acked_def pool_partial_def pool_of_two_def)
  from C10_stop_thread_keeps_pool_state [of pool_of_two 2
      "pool_of_two\<lparr>m_is_stopped := [True], m_task_cond := [notify_one]\<rparr>" 2 False
      fifo_queue "worker_at Leave3" "[]"]
    C10_stop_thread_keeps_pool_state [of pool_of_none 0 pool_of_none 2 False
      fifo_queue "worker_at Leave3" "[]"]
    C10_stop_thread_keeps_pool_state [of pool_partial 0 pool_partial 2 False
      fifo_queue "worker_at Leave3" "[]"]
    s a l e
  show ?thesis
    by simp
qed

end
